theory Spec2Isabelle
  imports Main "HOL-Library.Word"
begin

unbundle bit_operations_syntax

section \<open>C arithmetic and failures\<close>

text \<open>
  The simulator \<^verbatim>\<open>csim.c\<close> keeps its whole state in global variables of type
  \<^verbatim>\<open>int\<close> (32 bits) and in a heap array \<^verbatim>\<open>Line **cache\<close>. Every way the program can
  stop without a report is a value of \<open>error\<close>: the four \<^verbatim>\<open>exit(1)\<close> calls reached
  after option parsing, and the three kinds of undefined behaviour of C that the source
  can run into (overflow of a signed \<^verbatim>\<open>int\<close>, a shift whose count is not smaller than
  the width of the promoted left operand or whose result is not representable, an
  array access outside the allocated block). Nothing is assumed about what the
  machine does after undefined behaviour.
\<close>

datatype error =
    IncorrectInvocation
  | AddressSpaceExceeded
  | SizeOutOfRange
  | InvalidAction
  | SignedOverflow
  | ShiftOutOfRange
  | IndexOutOfBounds

definition INT_MAX :: int where
  "INT_MAX = 2147483647"

definition INT_MIN :: int where
  "INT_MIN = - 2147483648"

definition bind_err :: "error + 'a \<Rightarrow> ('a \<Rightarrow> error + 'b) \<Rightarrow> error + 'b" where
  "bind_err m f = (case m of Inl e \<Rightarrow> Inl e | Inr x \<Rightarrow> f x)"

text \<open>\<^verbatim>\<open>x++\<close> and \<^verbatim>\<open>x--\<close> on an \<^verbatim>\<open>int\<close>.\<close>

definition incr :: "int \<Rightarrow> error + int" where
  "incr x = (if x < INT_MAX then Inr (x + 1) else Inl SignedOverflow)"

definition decr :: "int \<Rightarrow> error + int" where
  "decr x = (if INT_MIN < x then Inr (x - 1) else Inl SignedOverflow)"

text \<open>\<^verbatim>\<open>x * y\<close> on two \<^verbatim>\<open>int\<close>s.\<close>

definition mul_int :: "int \<Rightarrow> int \<Rightarrow> error + int" where
  "mul_int x y =
     (if INT_MIN \<le> x * y \<and> x * y \<le> INT_MAX then Inr (x * y) else Inl SignedOverflow)"

text \<open>
  \<^verbatim>\<open>x << k\<close> with \<^verbatim>\<open>x\<close> an \<^verbatim>\<open>int\<close>: defined when the count is in \<open>0..31\<close>, \<open>x\<close> is not
  negative and \<open>x * 2 ^ k\<close> is representable in \<^verbatim>\<open>int\<close>. A negative count converted to
  \<^verbatim>\<open>unsigned int\<close> is at least \<open>2 ^ 31\<close>, so it is out of range as well.
\<close>

definition shl_int :: "int \<Rightarrow> int \<Rightarrow> error + int" where
  "shl_int x k =
     (if 0 \<le> k \<and> k < 32 \<and> 0 \<le> x \<and> x * 2 ^ nat k \<le> INT_MAX
      then Inr (x * 2 ^ nat k) else Inl ShiftOutOfRange)"

text \<open>\<^verbatim>\<open>a >> k\<close> with \<^verbatim>\<open>a\<close> an \<^verbatim>\<open>unsigned long\<close> (64 bits): defined for counts \<open>0..63\<close>.\<close>

definition shr_ulong :: "64 word \<Rightarrow> int \<Rightarrow> error + 64 word" where
  "shr_ulong a k = (if 0 \<le> k \<and> k < 64 then Inr (drop_bit (nat k) a) else Inl ShiftOutOfRange)"

section \<open>The cache and the counters\<close>

record Line =
  valid :: int
  tag :: "64 word"
  dirty :: int
  timeStamp :: int

text \<open>
  The globals of the program. The array \<^verbatim>\<open>cache\<close> is a list of rows, one per set; a
  list carries the length of the block that \<^verbatim>\<open>malloc\<close> returned for it, so the loops
  \<^verbatim>\<open>for (i = 0; i < E; i++)\<close> over \<^verbatim>\<open>cache[setIndex]\<close> are traversals of a row
  (\<open>init_cache\<close> allocates \<open>E\<close> lines for every row and no access changes a length,
  see \<open>run_shape\<close>). The globals \<^verbatim>\<open>S\<close>, \<^verbatim>\<open>B\<close> and \<^verbatim>\<open>E\<close> are the fields \<open>gS\<close>,
  \<open>gB\<close> and \<open>gE\<close>, since single capital letters are wanted for variables. The tag is
  a \<^verbatim>\<open>long\<close> that only ever holds a converted \<^verbatim>\<open>unsigned long\<close> and is only compared
  for equality: it is kept as the 64-bit pattern.
\<close>

record state =
  cache :: "Line list list"
  hit :: int
  miss :: int
  eviction :: int
  dirtyInCache :: int
  dirtyEvicted :: int
  time :: int
  gS :: int
  gB :: int
  gE :: int

definition globals0 :: state where
  "globals0 = \<lparr>cache = [], hit = 0, miss = 0, eviction = 0, dirtyInCache = 0,
     dirtyEvicted = 0, time = 0, gS = 0, gB = 0, gE = 0\<rparr>"

text \<open>Reading \<^verbatim>\<open>cache[setIndex]\<close> and \<^verbatim>\<open>cache[setIndex][lineIndex]\<close>.\<close>

definition row_at :: "Line list list \<Rightarrow> int \<Rightarrow> error + Line list" where
  "row_at c setIndex =
     (if 0 \<le> setIndex \<and> setIndex < int (length c) then Inr (c ! nat setIndex)
      else Inl IndexOutOfBounds)"

definition line_at :: "Line list \<Rightarrow> int \<Rightarrow> error + Line" where
  "line_at row lineIndex =
     (if 0 \<le> lineIndex \<and> lineIndex < int (length row) then Inr (row ! nat lineIndex)
      else Inl IndexOutOfBounds)"

text \<open>Writing a line back into \<^verbatim>\<open>cache[setIndex][lineIndex]\<close> (both indices in range).\<close>

definition put_line :: "int \<Rightarrow> int \<Rightarrow> Line \<Rightarrow> Line list list \<Rightarrow> Line list list" where
  "put_line setIndex lineIndex l c =
     c[nat setIndex := (c ! nat setIndex)[nat lineIndex := l]]"

section \<open>Configuration\<close>

text \<open>
  \<open>checkValidInput\<close> without its fourth test \<^verbatim>\<open>!t\<close>: the argument is the address of a
  local array of \<^verbatim>\<open>main\<close> and never null. The sum \<^verbatim>\<open>s + b\<close> is an \<^verbatim>\<open>int\<close> addition.
  \<open>init_cache\<close> is modelled for allocations that succeed.
\<close>

definition checkValidInput :: "int \<Rightarrow> int \<Rightarrow> int \<Rightarrow> error + unit" where
  "checkValidInput s b E =
     (if s < 0 \<or> b < 0 \<or> E \<le> 0 then Inl IncorrectInvocation
      else if INT_MAX < s + b then Inl SignedOverflow
      else if s + b > 64 then Inl AddressSpaceExceeded
      else Inr ())"

definition init_cache :: "int \<Rightarrow> int \<Rightarrow> int \<Rightarrow> state \<Rightarrow> error + state" where
  "init_cache s b E st =
     bind_err (shl_int 1 s) (\<lambda>S.
     bind_err (shl_int 1 b) (\<lambda>B.
       Inr (st\<lparr>gS := S, gB := B,
         cache := replicate (nat S)
           (replicate (nat E) \<lparr>valid = 0, tag = 0, dirty = 0, timeStamp = 0\<rparr>)\<rparr>)))"

section \<open>Searching a set\<close>

text \<open>
  Each search is the loop of the source over the lines of one set, with the loop index
  as an argument; \<open>find_LRU\<close> carries \<^verbatim>\<open>minTime\<close> and \<^verbatim>\<open>minIndex\<close> along.
\<close>

fun find_matched_from :: "Line list \<Rightarrow> 64 word \<Rightarrow> int \<Rightarrow> int" where
  "find_matched_from [] tg i = - 1"
| "find_matched_from (l # ls) tg i =
     (if valid l = 1 \<and> tag l = tg then i else find_matched_from ls tg (i + 1))"

definition find_matched_line :: "Line list \<Rightarrow> 64 word \<Rightarrow> int" where
  "find_matched_line row tg = find_matched_from row tg 0"

fun find_empty_from :: "Line list \<Rightarrow> int \<Rightarrow> int" where
  "find_empty_from [] i = - 1"
| "find_empty_from (l # ls) i = (if valid l = 0 then i else find_empty_from ls (i + 1))"

definition find_empty_line :: "Line list \<Rightarrow> int" where
  "find_empty_line row = find_empty_from row 0"

fun find_LRU_from :: "Line list \<Rightarrow> int \<Rightarrow> int \<Rightarrow> int \<Rightarrow> int" where
  "find_LRU_from [] i minTime minIndex = minIndex"
| "find_LRU_from (l # ls) i minTime minIndex =
     (if timeStamp l < minTime then find_LRU_from ls (i + 1) (timeStamp l) i
      else find_LRU_from ls (i + 1) minTime minIndex)"

definition find_LRU :: "Line list \<Rightarrow> int" where
  "find_LRU row = find_LRU_from row 0 9999999 (- 1)"

section \<open>Load and store\<close>

text \<open>
  The three functions follow the statements of the source in their order; every
  \<^verbatim>\<open>++\<close> and \<^verbatim>\<open>--\<close> and every subscript is a step that can fail.
\<close>

definition set_cache :: "64 word \<Rightarrow> int \<Rightarrow> int \<Rightarrow> state \<Rightarrow> error + state" where
  "set_cache tg setIndex lineIndex st =
     bind_err (row_at (cache st) setIndex) (\<lambda>row.
     bind_err (line_at row lineIndex) (\<lambda>l.
       Inr (st\<lparr>cache := put_line setIndex lineIndex
         (l\<lparr>valid := 1, tag := tg, dirty := 0, timeStamp := time st\<rparr>) (cache st)\<rparr>)))"

definition load_cache :: "64 word \<Rightarrow> int \<Rightarrow> state \<Rightarrow> error + state" where
  "load_cache tg setIndex st0 =
     bind_err (incr (time st0)) (\<lambda>t.
     let st = st0\<lparr>time := t\<rparr> in
     bind_err (row_at (cache st) setIndex) (\<lambda>row.
     let lineIndex = find_matched_line row tg in
     if lineIndex \<noteq> - 1 then
       bind_err (incr (hit st)) (\<lambda>h.
       bind_err (line_at row lineIndex) (\<lambda>l.
         Inr (st\<lparr>hit := h,
           cache := put_line setIndex lineIndex (l\<lparr>timeStamp := time st\<rparr>) (cache st)\<rparr>)))
     else
       bind_err (incr (miss st)) (\<lambda>m.
       let st = st\<lparr>miss := m\<rparr>;
           newLineIndex = find_empty_line row in
       if newLineIndex = - 1 then
         (let newLineIndex = find_LRU row in
          bind_err (line_at row newLineIndex) (\<lambda>victim.
          bind_err
            (if dirty victim = 1 then
               bind_err (incr (dirtyEvicted st)) (\<lambda>de.
               bind_err (decr (dirtyInCache st)) (\<lambda>dc.
                 Inr (st\<lparr>dirtyEvicted := de, dirtyInCache := dc\<rparr>)))
             else Inr st) (\<lambda>st.
          bind_err (incr (eviction st)) (\<lambda>ev.
            set_cache tg setIndex newLineIndex (st\<lparr>eviction := ev\<rparr>)))))
       else set_cache tg setIndex newLineIndex st)))"

definition store_cache :: "64 word \<Rightarrow> int \<Rightarrow> state \<Rightarrow> error + state" where
  "store_cache tg setIndex st0 =
     bind_err (incr (time st0)) (\<lambda>t.
     let st = st0\<lparr>time := t\<rparr> in
     bind_err (row_at (cache st) setIndex) (\<lambda>row.
     let lineIndex = find_matched_line row tg in
     if lineIndex \<noteq> - 1 then
       bind_err (incr (hit st)) (\<lambda>h.
       bind_err (line_at row lineIndex) (\<lambda>l.
       let st = st\<lparr>hit := h,
             cache := put_line setIndex lineIndex (l\<lparr>timeStamp := time st\<rparr>) (cache st)\<rparr> in
       if dirty l = 0 then
         bind_err (incr (dirtyInCache st)) (\<lambda>dc.
           Inr (st\<lparr>dirtyInCache := dc,
             cache := put_line setIndex lineIndex
               (l\<lparr>timeStamp := time st, dirty := 1\<rparr>) (cache st)\<rparr>))
       else Inr st))
     else
       bind_err (incr (miss st)) (\<lambda>m.
       let st = st\<lparr>miss := m\<rparr>;
           newLineIndex = find_empty_line row in
       bind_err
         (if newLineIndex = - 1 then
            (let newLineIndex = find_LRU row in
             bind_err (line_at row newLineIndex) (\<lambda>victim.
             bind_err
               (if dirty victim = 1 then
                  bind_err (incr (dirtyEvicted st)) (\<lambda>de. Inr (st\<lparr>dirtyEvicted := de\<rparr>))
                else Inr st) (\<lambda>st.
             bind_err (incr (eviction st)) (\<lambda>ev.
               Inr (newLineIndex, st\<lparr>eviction := ev\<rparr>)))))
          else Inr (newLineIndex, st)) (\<lambda>(newLineIndex, st).
       bind_err (line_at row newLineIndex) (\<lambda>chosen.
       bind_err
         (if dirty chosen = 0 then
            bind_err (incr (dirtyInCache st)) (\<lambda>dc. Inr (st\<lparr>dirtyInCache := dc\<rparr>))
          else Inr st) (\<lambda>st.
       bind_err (set_cache tg setIndex newLineIndex st) (\<lambda>st.
       bind_err (row_at (cache st) setIndex) (\<lambda>row'.
       bind_err (line_at row' newLineIndex) (\<lambda>l'.
         Inr (st\<lparr>cache := put_line setIndex newLineIndex (l'\<lparr>dirty := 1\<rparr>) (cache st)\<rparr>))))))))))"

section \<open>The trace loop and the report\<close>

definition MAX_SIZE :: int where
  "MAX_SIZE = 16"

text \<open>
  One record of the trace as \<^verbatim>\<open>fscanf\<close> delivers it to the loop body: the action
  character, the address (\<^verbatim>\<open>unsigned long\<close>) and the size (\<^verbatim>\<open>int\<close>). Reading and
  tokenising the file is outside the model; the trace is the list of the triples for
  which the body of the \<^verbatim>\<open>while\<close> loop runs. The test \<^verbatim>\<open>addr < 0\<close> of the body is on an
  unsigned value and never true.
\<close>

type_synonym access = "char \<times> 64 word \<times> int"

text \<open>
  The two expressions that split an address. The mask \<^verbatim>\<open>(1 << (s + b)) - 1\<close> is
  computed in \<^verbatim>\<open>int\<close> and then converted to \<^verbatim>\<open>unsigned long\<close> for the \<^verbatim>\<open>&\<close>; the
  set index is converted back to \<^verbatim>\<open>int\<close>.
\<close>

definition addr_tag :: "int \<Rightarrow> int \<Rightarrow> 64 word \<Rightarrow> error + 64 word" where
  "addr_tag s b addr = shr_ulong addr (s + b)"

definition addr_setIndex :: "int \<Rightarrow> int \<Rightarrow> 64 word \<Rightarrow> error + int" where
  "addr_setIndex s b addr =
     bind_err (shl_int 1 (s + b)) (\<lambda>m.
     bind_err (shr_ulong (addr AND word_of_int (m - 1)) b) (\<lambda>w.
       Inr (signed_take_bit 31 (uint w))))"

definition trace_step :: "access \<Rightarrow> int \<Rightarrow> int \<Rightarrow> state \<Rightarrow> error + state" where
  "trace_step r s b st =
     (case r of (action, addr, sz) \<Rightarrow>
        if sz < 0 \<or> sz \<ge> MAX_SIZE then Inl SizeOutOfRange
        else
          bind_err (addr_tag s b addr) (\<lambda>tg.
          bind_err (addr_setIndex s b addr) (\<lambda>setIndex.
            if action = CHR ''L'' then load_cache tg setIndex st
            else if action = CHR ''S'' then store_cache tg setIndex st
            else Inl InvalidAction)))"

fun process_trace_file :: "access list \<Rightarrow> int \<Rightarrow> int \<Rightarrow> int \<Rightarrow> state \<Rightarrow> error + state" where
  "process_trace_file [] s E b st = Inr st"
| "process_trace_file (r # rest) s E b st =
     (case trace_step r s b st of
        Inl e \<Rightarrow> Inl e
      | Inr st' \<Rightarrow> process_trace_file rest s E b st')"

text \<open>
  Modelled from the spec: the type \<^verbatim>\<open>csim_stats_t\<close> is declared in \<^verbatim>\<open>cachelab.h\<close>, which
  is not among the sources; \<^verbatim>\<open>main\<close> assigns an \<^verbatim>\<open>unsigned long\<close> to each of its five
  fields, the final statistics of the specification.
\<close>

record csim_stats =
  hits :: "64 word"
  misses :: "64 word"
  evictions :: "64 word"
  dirty_bytes :: "64 word"
  dirty_evictions :: "64 word"

text \<open>
  \<^verbatim>\<open>main\<close> from the call of \<^verbatim>\<open>checkValidInput\<close> on, for the values of \<^verbatim>\<open>s\<close>, \<^verbatim>\<open>b\<close> and \<^verbatim>\<open>E\<close>
  that option parsing produced and the records of a trace file that could be opened.
  The result is the argument of \<^verbatim>\<open>printSummary\<close>; an error stands for a run that
  ends before \<^verbatim>\<open>printSummary\<close> is called.
\<close>

definition main :: "int \<Rightarrow> int \<Rightarrow> int \<Rightarrow> access list \<Rightarrow> error + csim_stats" where
  "main s b E trace =
     bind_err (checkValidInput s b E) (\<lambda>_.
     bind_err (init_cache s b E (globals0\<lparr>gE := E\<rparr>)) (\<lambda>st0.
     bind_err (process_trace_file trace s E b st0) (\<lambda>st.
     bind_err (mul_int (dirtyInCache st) (gB st)) (\<lambda>db.
     bind_err (mul_int (dirtyEvicted st) (gB st)) (\<lambda>de.
       Inr \<lparr>hits = word_of_int (hit st), misses = word_of_int (miss st),
            evictions = word_of_int (eviction st),
            dirty_bytes = word_of_int db, dirty_evictions = word_of_int de\<rparr>)))))"

section \<open>Example states\<close>

text \<open>
  A cache of one set with two lines, both valid, as left by a store of tag 3 followed by
  a load of tag 7 with \<open>s = 0\<close>, \<open>b = 0\<close>, \<open>E = 2\<close>.
\<close>

definition two_way_full :: state where
  "two_way_full = \<lparr>cache = [[\<lparr>valid = 1, tag = 3, dirty = 1, timeStamp = 1\<rparr>,
       \<lparr>valid = 1, tag = 7, dirty = 0, timeStamp = 2\<rparr>]],
     hit = 0, miss = 2, eviction = 0, dirtyInCache = 1, dirtyEvicted = 0, time = 2,
     gS = 1, gB = 1, gE = 2\<rparr>"

text \<open>The same cache after the store alone: the second line is still free.\<close>

definition two_way_half :: state where
  "two_way_half = \<lparr>cache = [[\<lparr>valid = 1, tag = 3, dirty = 1, timeStamp = 1\<rparr>,
       \<lparr>valid = 0, tag = 0, dirty = 0, timeStamp = 0\<rparr>]],
     hit = 0, miss = 1, eviction = 0, dirtyInCache = 1, dirtyEvicted = 0, time = 1,
     gS = 1, gB = 1, gE = 2\<rparr>"

text \<open>What \<open>init_cache\<close> builds for \<open>s = 0\<close>, \<open>b = 0\<close>, \<open>E = 2\<close>.\<close>

definition two_way_fresh :: state where
  "two_way_fresh = \<lparr>cache = [[\<lparr>valid = 0, tag = 0, dirty = 0, timeStamp = 0\<rparr>,
       \<lparr>valid = 0, tag = 0, dirty = 0, timeStamp = 0\<rparr>]],
     hit = 0, miss = 0, eviction = 0, dirtyInCache = 0, dirtyEvicted = 0, time = 0,
     gS = 1, gB = 1, gE = 2\<rparr>"

text \<open>
  Two direct-mapped sets of four-byte blocks (\<open>s = 1\<close>, \<open>b = 2\<close>, \<open>E = 1\<close>), fresh and
  after a load of address \<open>0x14\<close>, a store to \<open>0x16\<close> and a load of \<open>0x8\<close>.
\<close>

definition two_sets_fresh :: state where
  "two_sets_fresh = \<lparr>cache = [[\<lparr>valid = 0, tag = 0, dirty = 0, timeStamp = 0\<rparr>],
       [\<lparr>valid = 0, tag = 0, dirty = 0, timeStamp = 0\<rparr>]],
     hit = 0, miss = 0, eviction = 0, dirtyInCache = 0, dirtyEvicted = 0, time = 0,
     gS = 2, gB = 4, gE = 1\<rparr>"

definition two_sets_used :: state where
  "two_sets_used = \<lparr>cache = [[\<lparr>valid = 1, tag = 1, dirty = 0, timeStamp = 3\<rparr>],
       [\<lparr>valid = 1, tag = 2, dirty = 1, timeStamp = 2\<rparr>]],
     hit = 1, miss = 2, eviction = 0, dirtyInCache = 1, dirtyEvicted = 0, time = 3,
     gS = 2, gB = 4, gE = 1\<rparr>"

section \<open>Invariants of the running simulator\<close>

text \<open>The lines that \<open>dirtyInCache\<close> is meant to count: valid and dirty.\<close>

definition valid_dirty :: "Line \<Rightarrow> bool" where
  "valid_dirty l \<longleftrightarrow> valid l = 1 \<and> dirty l = 1"

definition dirty_lines :: "Line list list \<Rightarrow> nat" where
  "dirty_lines c = sum_list (map (\<lambda>row. length (filter valid_dirty row)) c)"

text \<open>The two flags of a line are 0 or 1, and a line that is not valid is not dirty.\<close>

definition line_ok :: "Line \<Rightarrow> bool" where
  "line_ok l \<longleftrightarrow>
     (valid l = 0 \<and> dirty l = 0) \<or> (valid l = 1 \<and> (dirty l = 0 \<or> dirty l = 1))"

definition lines_ok :: "Line list list \<Rightarrow> bool" where
  "lines_ok c = list_all (list_all line_ok) c"

text \<open>
  No valid line of a set is stamped later than the clock, and two different valid
  lines of a set never carry the same stamp.
\<close>

definition stamps_ok :: "int \<Rightarrow> Line list \<Rightarrow> bool" where
  "stamps_ok t row \<longleftrightarrow>
     (\<forall>i < length row. valid (row ! i) = 1 \<longrightarrow> timeStamp (row ! i) \<le> t) \<and>
     (\<forall>i < length row. \<forall>j < length row.
        i \<noteq> j \<and> valid (row ! i) = 1 \<and> valid (row ! j) = 1 \<longrightarrow>
        timeStamp (row ! i) \<noteq> timeStamp (row ! j))"

definition cache_inv :: "state \<Rightarrow> bool" where
  "cache_inv st \<longleftrightarrow>
     lines_ok (cache st) \<and>
     dirtyInCache st = int (dirty_lines (cache st)) \<and>
     list_all (stamps_ok (time st)) (cache st) \<and>
     time st = hit st + miss st"

text \<open>
  An access replaces one line of the addressed set by a valid line stamped with the
  new clock value, counts one hit or one miss, and moves \<open>dirtyInCache\<close> by what the
  replaced line and the new line contribute to the number of valid dirty lines.
\<close>

definition touches :: "state \<Rightarrow> state \<Rightarrow> nat \<Rightarrow> nat \<Rightarrow> Line \<Rightarrow> bool" where
  "touches st st' i k l \<longleftrightarrow>
     i < length (cache st) \<and> k < length (cache st ! i) \<and>
     line_ok l \<and> valid l = 1 \<and> timeStamp l = time st + 1 \<and>
     cache st' = (cache st)[i := (cache st ! i)[k := l]] \<and>
     time st' = time st + 1 \<and>
     (hit st' = hit st + 1 \<and> miss st' = miss st \<or>
      hit st' = hit st \<and> miss st' = miss st + 1) \<and>
     dirtyInCache st' =
       dirtyInCache st - of_bool (valid_dirty (cache st ! i ! k)) + of_bool (valid_dirty l)"

text \<open>What \<open>init_cache\<close> builds for \<open>s = 0\<close>, \<open>b = 0\<close>, \<open>E = 1\<close>: one set of one line.\<close>

definition one_line_fresh :: state where
  "one_line_fresh = \<lparr>cache = [[\<lparr>valid = 0, tag = 0, dirty = 0, timeStamp = 0\<rparr>]],
     hit = 0, miss = 0, eviction = 0, dirtyInCache = 0, dirtyEvicted = 0, time = 0,
     gS = 1, gB = 1, gE = 1\<rparr>"

text \<open>
  The one-line cache after 9999999 loads of address 0: one miss, then hits only, the
  last of them under the clock value 9999999.
\<close>

definition one_line_hot :: state where
  "one_line_hot = \<lparr>cache = [[\<lparr>valid = 1, tag = 0, dirty = 0, timeStamp = 9999999\<rparr>]],
     hit = 9999998, miss = 1, eviction = 0, dirtyInCache = 0, dirtyEvicted = 0,
     time = 9999999, gS = 1, gB = 1, gE = 1\<rparr>"

text \<open>
  One line of \<open>2 ^ 30\<close> bytes (\<open>s = 0\<close>, \<open>b = 30\<close>, \<open>E = 1\<close>) after stores to the
  addresses \<open>0\<close>, \<open>0x40000000\<close> and \<open>0x80000000\<close>, which have the tags 0, 1 and 2.
\<close>

definition big_block_used :: state where
  "big_block_used = \<lparr>cache = [[\<lparr>valid = 1, tag = 2, dirty = 1, timeStamp = 3\<rparr>]],
     hit = 0, miss = 3, eviction = 2, dirtyInCache = 1, dirtyEvicted = 2,
     time = 3, gS = 1, gB = 1073741824, gE = 1\<rparr>"

section \<open>Results of the basic operations\<close>

lemma bind_err_Inr_iff:
  "bind_err m f = Inr y \<longleftrightarrow> (\<exists>x. m = Inr x \<and> f x = Inr y)"
  by (cases m) (simp_all add: bind_err_def)

lemma incr_Inr_iff: "incr x = Inr y \<longleftrightarrow> x < INT_MAX \<and> y = x + 1"
  by (auto simp: incr_def)

lemma decr_Inr_iff: "decr x = Inr y \<longleftrightarrow> INT_MIN < x \<and> y = x - 1"
  by (auto simp: decr_def)

lemma row_at_Inr_iff:
  "row_at c si = Inr row \<longleftrightarrow> 0 \<le> si \<and> nat si < length c \<and> row = c ! nat si"
  by (auto simp: row_at_def)

lemma line_at_Inr_iff:
  "line_at row li = Inr l \<longleftrightarrow> 0 \<le> li \<and> nat li < length row \<and> l = row ! nat li"
  by (auto simp: line_at_def)

lemma Line_overwrite:
  "l\<lparr>valid := v, tag := tg, dirty := d, timeStamp := t\<rparr> =
     \<lparr>valid = v, tag = tg, dirty = d, timeStamp = t\<rparr>"
  "l\<lparr>valid := v, tag := tg, timeStamp := t, dirty := d\<rparr> =
     \<lparr>valid = v, tag = tg, dirty = d, timeStamp = t\<rparr>"
  by simp_all

lemma set_cache_Inr_iff:
  "set_cache tg si li st = Inr st' \<longleftrightarrow>
     0 \<le> si \<and> nat si < length (cache st) \<and> 0 \<le> li \<and> nat li < length (cache st ! nat si) \<and>
     st' = st\<lparr>cache := (cache st)[nat si := (cache st ! nat si)[nat li :=
       (cache st ! nat si ! nat li)\<lparr>valid := 1, tag := tg, dirty := 0, timeStamp := time st\<rparr>]]\<rparr>"
  by (auto simp: set_cache_def bind_err_Inr_iff row_at_Inr_iff line_at_Inr_iff put_line_def)

lemma load_cache_cases [consumes 1, case_names hit fill evict_clean evict_dirty]:
  assumes "load_cache tg si st = Inr st'"
  obtains
    (hit) k where "0 \<le> si" "nat si < length (cache st)" "k < length (cache st ! nat si)"
      "find_matched_line (cache st ! nat si) tg = int k"
      "st' = st\<lparr>time := time st + 1, hit := hit st + 1,
         cache := (cache st)[nat si := (cache st ! nat si)[k :=
           (cache st ! nat si ! k)\<lparr>timeStamp := time st + 1\<rparr>]]\<rparr>"
  | (fill) k where "0 \<le> si" "nat si < length (cache st)" "k < length (cache st ! nat si)"
      "find_matched_line (cache st ! nat si) tg = - 1"
      "find_empty_line (cache st ! nat si) = int k"
      "st' = st\<lparr>time := time st + 1, miss := miss st + 1,
         cache := (cache st)[nat si := (cache st ! nat si)[k :=
           \<lparr>valid = 1, tag = tg, dirty = 0, timeStamp = time st + 1\<rparr>]]\<rparr>"
  | (evict_clean) k where "0 \<le> si" "nat si < length (cache st)" "k < length (cache st ! nat si)"
      "find_matched_line (cache st ! nat si) tg = - 1"
      "find_empty_line (cache st ! nat si) = - 1"
      "find_LRU (cache st ! nat si) = int k"
      "dirty (cache st ! nat si ! k) \<noteq> 1"
      "st' = st\<lparr>time := time st + 1, miss := miss st + 1, eviction := eviction st + 1,
         cache := (cache st)[nat si := (cache st ! nat si)[k :=
           \<lparr>valid = 1, tag = tg, dirty = 0, timeStamp = time st + 1\<rparr>]]\<rparr>"
  | (evict_dirty) k where "0 \<le> si" "nat si < length (cache st)" "k < length (cache st ! nat si)"
      "find_matched_line (cache st ! nat si) tg = - 1"
      "find_empty_line (cache st ! nat si) = - 1"
      "find_LRU (cache st ! nat si) = int k"
      "dirty (cache st ! nat si ! k) = 1"
      "st' = st\<lparr>time := time st + 1, miss := miss st + 1, eviction := eviction st + 1,
         dirtyEvicted := dirtyEvicted st + 1, dirtyInCache := dirtyInCache st - 1,
         cache := (cache st)[nat si := (cache st ! nat si)[k :=
           \<lparr>valid = 1, tag = tg, dirty = 0, timeStamp = time st + 1\<rparr>]]\<rparr>"
proof -
  let ?row = "cache st ! nat si"
  from assms have t: "time st < INT_MAX" and si: "0 \<le> si" "nat si < length (cache st)"
    by (auto simp: load_cache_def bind_err_Inr_iff incr_Inr_iff row_at_Inr_iff Let_def)
  show thesis
  proof (cases "find_matched_line ?row tg \<noteq> - 1")
    case True
    with assms t si have "0 \<le> find_matched_line ?row tg"
      "nat (find_matched_line ?row tg) < length ?row"
      "st' = st\<lparr>time := time st + 1, hit := hit st + 1,
         cache := (cache st)[nat si := ?row[nat (find_matched_line ?row tg) :=
           (?row ! nat (find_matched_line ?row tg))\<lparr>timeStamp := time st + 1\<rparr>]]\<rparr>"
      by (auto simp: load_cache_def bind_err_Inr_iff incr_Inr_iff row_at_Inr_iff
          line_at_Inr_iff put_line_def Let_def)
    then show thesis
      using si by (intro hit [of "nat (find_matched_line ?row tg)"]) simp_all
  next
    case nomatch: False
    show thesis
    proof (cases "find_empty_line ?row = - 1")
      case False
      with assms t si nomatch have "0 \<le> find_empty_line ?row"
        "nat (find_empty_line ?row) < length ?row"
        "st' = st\<lparr>time := time st + 1, miss := miss st + 1,
           cache := (cache st)[nat si := ?row[nat (find_empty_line ?row) :=
             \<lparr>valid = 1, tag = tg, dirty = 0, timeStamp = time st + 1\<rparr>]]\<rparr>"
        by (auto simp: load_cache_def bind_err_Inr_iff incr_Inr_iff row_at_Inr_iff
            set_cache_Inr_iff Let_def Line_overwrite)
      then show thesis
        using si nomatch by (intro fill [of "nat (find_empty_line ?row)"]) simp_all
    next
      case full: True
      from assms t si nomatch full have k: "0 \<le> find_LRU ?row" "nat (find_LRU ?row) < length ?row"
        by (auto simp: load_cache_def bind_err_Inr_iff incr_Inr_iff row_at_Inr_iff
            line_at_Inr_iff Let_def)
      show thesis
      proof (cases "dirty (?row ! nat (find_LRU ?row)) = 1")
        case True
        with assms t si nomatch full k have
          "st' = st\<lparr>time := time st + 1, miss := miss st + 1, eviction := eviction st + 1,
             dirtyEvicted := dirtyEvicted st + 1, dirtyInCache := dirtyInCache st - 1,
             cache := (cache st)[nat si := ?row[nat (find_LRU ?row) :=
               \<lparr>valid = 1, tag = tg, dirty = 0, timeStamp = time st + 1\<rparr>]]\<rparr>"
          by (auto simp: load_cache_def bind_err_Inr_iff incr_Inr_iff decr_Inr_iff row_at_Inr_iff
              line_at_Inr_iff set_cache_Inr_iff Let_def Line_overwrite)
        then show thesis
          using si nomatch full k True by (intro evict_dirty [of "nat (find_LRU ?row)"]) simp_all
      next
        case False
        with assms t si nomatch full k have
          "st' = st\<lparr>time := time st + 1, miss := miss st + 1, eviction := eviction st + 1,
             cache := (cache st)[nat si := ?row[nat (find_LRU ?row) :=
               \<lparr>valid = 1, tag = tg, dirty = 0, timeStamp = time st + 1\<rparr>]]\<rparr>"
          by (auto simp: load_cache_def bind_err_Inr_iff incr_Inr_iff decr_Inr_iff row_at_Inr_iff
              line_at_Inr_iff set_cache_Inr_iff Let_def Line_overwrite)
        then show thesis
          using si nomatch full k False by (intro evict_clean [of "nat (find_LRU ?row)"]) simp_all
      qed
    qed
  qed
qed

lemma store_cache_cases [consumes 1, case_names hit_clean hit_dirty fill evict_dirty evict_clean]:
  assumes "store_cache tg si st = Inr st'"
  obtains
    (hit_clean) k where "0 \<le> si" "nat si < length (cache st)" "k < length (cache st ! nat si)"
      "find_matched_line (cache st ! nat si) tg = int k"
      "dirty (cache st ! nat si ! k) = 0"
      "st' = st\<lparr>time := time st + 1, hit := hit st + 1, dirtyInCache := dirtyInCache st + 1,
         cache := (cache st)[nat si := (cache st ! nat si)[k :=
           (cache st ! nat si ! k)\<lparr>timeStamp := time st + 1, dirty := 1\<rparr>]]\<rparr>"
  | (hit_dirty) k where "0 \<le> si" "nat si < length (cache st)" "k < length (cache st ! nat si)"
      "find_matched_line (cache st ! nat si) tg = int k"
      "dirty (cache st ! nat si ! k) \<noteq> 0"
      "st' = st\<lparr>time := time st + 1, hit := hit st + 1,
         cache := (cache st)[nat si := (cache st ! nat si)[k :=
           (cache st ! nat si ! k)\<lparr>timeStamp := time st + 1\<rparr>]]\<rparr>"
  | (fill) k where "0 \<le> si" "nat si < length (cache st)" "k < length (cache st ! nat si)"
      "find_matched_line (cache st ! nat si) tg = - 1"
      "find_empty_line (cache st ! nat si) = int k"
      "st' = st\<lparr>time := time st + 1, miss := miss st + 1,
         dirtyInCache := (if dirty (cache st ! nat si ! k) = 0 then dirtyInCache st + 1
                          else dirtyInCache st),
         cache := (cache st)[nat si := (cache st ! nat si)[k :=
           \<lparr>valid = 1, tag = tg, dirty = 1, timeStamp = time st + 1\<rparr>]]\<rparr>"
  | (evict_dirty) k where "0 \<le> si" "nat si < length (cache st)" "k < length (cache st ! nat si)"
      "find_matched_line (cache st ! nat si) tg = - 1"
      "find_empty_line (cache st ! nat si) = - 1"
      "find_LRU (cache st ! nat si) = int k"
      "dirty (cache st ! nat si ! k) = 1"
      "st' = st\<lparr>time := time st + 1, miss := miss st + 1, eviction := eviction st + 1,
         dirtyEvicted := dirtyEvicted st + 1,
         cache := (cache st)[nat si := (cache st ! nat si)[k :=
           \<lparr>valid = 1, tag = tg, dirty = 1, timeStamp = time st + 1\<rparr>]]\<rparr>"
  | (evict_clean) k where "0 \<le> si" "nat si < length (cache st)" "k < length (cache st ! nat si)"
      "find_matched_line (cache st ! nat si) tg = - 1"
      "find_empty_line (cache st ! nat si) = - 1"
      "find_LRU (cache st ! nat si) = int k"
      "dirty (cache st ! nat si ! k) \<noteq> 1"
      "st' = st\<lparr>time := time st + 1, miss := miss st + 1, eviction := eviction st + 1,
         dirtyInCache := (if dirty (cache st ! nat si ! k) = 0 then dirtyInCache st + 1
                          else dirtyInCache st),
         cache := (cache st)[nat si := (cache st ! nat si)[k :=
           \<lparr>valid = 1, tag = tg, dirty = 1, timeStamp = time st + 1\<rparr>]]\<rparr>"
proof -
  let ?row = "cache st ! nat si"
  note defs = store_cache_def bind_err_Inr_iff incr_Inr_iff row_at_Inr_iff
    line_at_Inr_iff set_cache_Inr_iff put_line_def Let_def Line_overwrite
  from assms have t: "time st < INT_MAX" and si: "0 \<le> si" "nat si < length (cache st)"
    by (auto simp: defs)
  show thesis
  proof (cases "find_matched_line ?row tg \<noteq> - 1")
    case True
    with assms t si have "0 \<le> find_matched_line ?row tg"
      "nat (find_matched_line ?row tg) < length ?row"
      by (auto simp: defs)
    then obtain k where k: "find_matched_line ?row tg = int k" "k < length ?row"
      by (metis int_nat_eq)
    show thesis
    proof (cases "dirty (?row ! k) = 0")
      case clean: True
      with True assms t si k have
        "st' = st\<lparr>time := time st + 1, hit := hit st + 1, dirtyInCache := dirtyInCache st + 1,
           cache := (cache st)[nat si := ?row[k := (?row ! k)\<lparr>timeStamp := time st + 1, dirty := 1\<rparr>]]\<rparr>"
        by (auto simp: defs)
      then show thesis
        by (rule hit_clean [OF si k(2) k(1) clean])
    next
      case dirty: False
      with True assms t si k have
        "st' = st\<lparr>time := time st + 1, hit := hit st + 1,
           cache := (cache st)[nat si := ?row[k := (?row ! k)\<lparr>timeStamp := time st + 1\<rparr>]]\<rparr>"
        by (auto simp: defs)
      then show thesis
        by (rule hit_dirty [OF si k(2) k(1) dirty])
    qed
  next
    case False
    then have nomatch: "find_matched_line ?row tg = - 1"
      by simp
    show thesis
    proof (cases "find_empty_line ?row = - 1")
      case False
      with assms t si nomatch have "0 \<le> find_empty_line ?row"
        "nat (find_empty_line ?row) < length ?row"
        by (auto simp: defs)
      then obtain k where k: "find_empty_line ?row = int k" "k < length ?row"
        by (metis int_nat_eq)
      have "st' = st\<lparr>time := time st + 1, miss := miss st + 1,
           dirtyInCache := (if dirty (?row ! k) = 0 then dirtyInCache st + 1 else dirtyInCache st),
           cache := (cache st)[nat si := ?row[k :=
             \<lparr>valid = 1, tag = tg, dirty = 1, timeStamp = time st + 1\<rparr>]]\<rparr>"
      proof (cases "dirty (?row ! k) = 0")
        case True
        with assms t si nomatch k show ?thesis
          by (auto simp: defs)
      next
        case False
        with assms t si nomatch k show ?thesis
          by (auto simp: defs)
      qed
      then show thesis
        by (rule fill [OF si k(2) nomatch k(1)])
    next
      case full: True
      from assms t si nomatch full have "0 \<le> find_LRU ?row" "nat (find_LRU ?row) < length ?row"
        by (auto simp: defs)
      then obtain k where k: "find_LRU ?row = int k" "k < length ?row"
        by (metis int_nat_eq)
      show thesis
      proof (cases "dirty (?row ! k) = 1")
        case True
        with assms t si nomatch full k have
          "st' = st\<lparr>time := time st + 1, miss := miss st + 1, eviction := eviction st + 1,
             dirtyEvicted := dirtyEvicted st + 1,
             cache := (cache st)[nat si := ?row[k :=
               \<lparr>valid = 1, tag = tg, dirty = 1, timeStamp = time st + 1\<rparr>]]\<rparr>"
          by (auto simp: defs)
        then show thesis
          by (rule evict_dirty [OF si k(2) nomatch full k(1) True])
      next
        case nd: False
        have "st' = st\<lparr>time := time st + 1, miss := miss st + 1, eviction := eviction st + 1,
             dirtyInCache := (if dirty (?row ! k) = 0 then dirtyInCache st + 1 else dirtyInCache st),
             cache := (cache st)[nat si := ?row[k :=
               \<lparr>valid = 1, tag = tg, dirty = 1, timeStamp = time st + 1\<rparr>]]\<rparr>"
        proof (cases "dirty (?row ! k) = 0")
          case True
          with assms t si nomatch full k show ?thesis
            by (auto simp: defs)
        next
          case False
          with nd assms t si nomatch full k show ?thesis
            by (auto simp: defs)
        qed
        then show thesis
          by (rule evict_clean [OF si k(2) nomatch full k(1) nd])
      qed
    qed
  qed
qed

section \<open>The three searches\<close>

lemma find_matched_from_cases:
  "find_matched_from row tg i = - 1 \<and>
     (0 \<le> i \<longrightarrow> (\<forall>l \<in> set row. \<not> (valid l = 1 \<and> tag l = tg))) \<or>
   (\<exists>k < length row. find_matched_from row tg i = i + int k \<and>
      valid (row ! k) = 1 \<and> tag (row ! k) = tg \<and>
      (\<forall>j < k. \<not> (valid (row ! j) = 1 \<and> tag (row ! j) = tg)))"
proof (induction row arbitrary: i)
  case Nil
  then show ?case by simp
next
  case (Cons l ls)
  show ?case
  proof (cases "valid l = 1 \<and> tag l = tg")
    case True
    then show ?thesis by (intro disjI2 exI [of _ 0]) simp
  next
    case False
    from Cons.IH [of "i + 1"] show ?thesis
    proof
      assume "find_matched_from ls tg (i + 1) = - 1 \<and>
        (0 \<le> i + 1 \<longrightarrow> (\<forall>l \<in> set ls. \<not> (valid l = 1 \<and> tag l = tg)))"
      with False show ?thesis by auto
    next
      assume "\<exists>k<length ls. find_matched_from ls tg (i + 1) = i + 1 + int k \<and>
        valid (ls ! k) = 1 \<and> tag (ls ! k) = tg \<and>
        (\<forall>j<k. \<not> (valid (ls ! j) = 1 \<and> tag (ls ! j) = tg))"
      then obtain k where k: "k < length ls" "find_matched_from ls tg (i + 1) = i + 1 + int k"
        "valid (ls ! k) = 1" "tag (ls ! k) = tg"
        "\<forall>j<k. \<not> (valid (ls ! j) = 1 \<and> tag (ls ! j) = tg)"
        by blast
      have "\<forall>j<Suc k. \<not> (valid ((l # ls) ! j) = 1 \<and> tag ((l # ls) ! j) = tg)"
        using False k(5) by (auto simp: nth_Cons split: nat.splits)
      with k False show ?thesis
        by (intro disjI2 exI [of _ "Suc k"]) auto
    qed
  qed
qed

lemma find_matched_line_miss_iff:
  "find_matched_line row tg = - 1 \<longleftrightarrow> (\<forall>l \<in> set row. \<not> (valid l = 1 \<and> tag l = tg))"
  using find_matched_from_cases [of row tg 0]
  by (auto simp: find_matched_line_def dest: nth_mem)

lemma find_matched_line_hit:
  assumes "\<exists>l \<in> set row. valid l = 1 \<and> tag l = tg"
  shows "\<exists>k < length row. find_matched_line row tg = int k \<and>
      valid (row ! k) = 1 \<and> tag (row ! k) = tg \<and>
      (\<forall>j < k. \<not> (valid (row ! j) = 1 \<and> tag (row ! j) = tg))"
  using find_matched_from_cases [of row tg 0] assms
  by (auto simp: find_matched_line_def)

lemma find_empty_from_cases:
  "find_empty_from row i = - 1 \<and> (0 \<le> i \<longrightarrow> (\<forall>l \<in> set row. valid l \<noteq> 0)) \<or>
   (\<exists>k < length row. find_empty_from row i = i + int k \<and>
      valid (row ! k) = 0 \<and> (\<forall>j < k. valid (row ! j) \<noteq> 0))"
proof (induction row arbitrary: i)
  case Nil
  then show ?case by simp
next
  case (Cons l ls)
  show ?case
  proof (cases "valid l = 0")
    case True
    then show ?thesis by (intro disjI2 exI [of _ 0]) simp
  next
    case False
    from Cons.IH [of "i + 1"] show ?thesis
    proof
      assume "find_empty_from ls (i + 1) = - 1 \<and> (0 \<le> i + 1 \<longrightarrow> (\<forall>l \<in> set ls. valid l \<noteq> 0))"
      with False show ?thesis by auto
    next
      assume "\<exists>k<length ls. find_empty_from ls (i + 1) = i + 1 + int k \<and>
        valid (ls ! k) = 0 \<and> (\<forall>j<k. valid (ls ! j) \<noteq> 0)"
      then obtain k where k: "k < length ls" "find_empty_from ls (i + 1) = i + 1 + int k"
        "valid (ls ! k) = 0" "\<forall>j<k. valid (ls ! j) \<noteq> 0"
        by blast
      have "\<forall>j<Suc k. valid ((l # ls) ! j) \<noteq> 0"
        using False k(4) by (auto simp: nth_Cons split: nat.splits)
      with k False show ?thesis
        by (intro disjI2 exI [of _ "Suc k"]) auto
    qed
  qed
qed

lemma find_empty_line_full_iff:
  "find_empty_line row = - 1 \<longleftrightarrow> (\<forall>l \<in> set row. valid l \<noteq> 0)"
  using find_empty_from_cases [of row 0]
  by (auto simp: find_empty_line_def dest: nth_mem)

lemma find_empty_line_first:
  assumes "find_empty_line row = int k"
  shows "k < length row \<and> valid (row ! k) = 0 \<and> (\<forall>j < k. valid (row ! j) \<noteq> 0)"
  using find_empty_from_cases [of row 0] assms
  by (auto simp: find_empty_line_def)

lemma find_matched_line_first:
  assumes "find_matched_line row tg = int k"
  shows "k < length row \<and> valid (row ! k) = 1 \<and> tag (row ! k) = tg \<and>
     (\<forall>j < k. \<not> (valid (row ! j) = 1 \<and> tag (row ! j) = tg))"
  using find_matched_from_cases [of row tg 0] assms
  by (auto simp: find_matched_line_def)

lemma find_LRU_from_cases:
  "find_LRU_from row i minTime minIndex = minIndex \<and> (\<forall>l \<in> set row. minTime \<le> timeStamp l) \<or>
   (\<exists>k < length row. find_LRU_from row i minTime minIndex = i + int k \<and>
      timeStamp (row ! k) < minTime \<and>
      (\<forall>j < length row. timeStamp (row ! k) \<le> timeStamp (row ! j)) \<and>
      (\<forall>j < k. timeStamp (row ! k) < timeStamp (row ! j)))"
proof (induction row arbitrary: i minTime minIndex)
  case Nil
  then show ?case by simp
next
  case (Cons l ls)
  show ?case
  proof (cases "timeStamp l < minTime")
    case True
    from Cons.IH [of "i + 1" "timeStamp l" i] show ?thesis
    proof
      assume "find_LRU_from ls (i + 1) (timeStamp l) i = i \<and>
        (\<forall>l' \<in> set ls. timeStamp l \<le> timeStamp l')"
      with True have "find_LRU_from (l # ls) i minTime minIndex = i + int 0"
        and "\<forall>j < length (l # ls). timeStamp ((l # ls) ! 0) \<le> timeStamp ((l # ls) ! j)"
        by (auto simp: nth_Cons split: nat.splits)
      with True show ?thesis
        by (intro disjI2 exI [of _ 0]) simp
    next
      assume "\<exists>k<length ls. find_LRU_from ls (i + 1) (timeStamp l) i = i + 1 + int k \<and>
        timeStamp (ls ! k) < timeStamp l \<and>
        (\<forall>j<length ls. timeStamp (ls ! k) \<le> timeStamp (ls ! j)) \<and>
        (\<forall>j<k. timeStamp (ls ! k) < timeStamp (ls ! j))"
      then obtain k where k: "k < length ls"
        "find_LRU_from ls (i + 1) (timeStamp l) i = i + 1 + int k"
        "timeStamp (ls ! k) < timeStamp l"
        "\<forall>j<length ls. timeStamp (ls ! k) \<le> timeStamp (ls ! j)"
        "\<forall>j<k. timeStamp (ls ! k) < timeStamp (ls ! j)"
        by blast
      from k(3,4) have "\<forall>j < length (l # ls). timeStamp (ls ! k) \<le> timeStamp ((l # ls) ! j)"
        by (auto simp: nth_Cons split: nat.splits)
      moreover from k(3,5) have "\<forall>j < Suc k. timeStamp (ls ! k) < timeStamp ((l # ls) ! j)"
        by (auto simp: nth_Cons split: nat.splits)
      ultimately show ?thesis
        using True k(1,2,3) by (intro disjI2 exI [of _ "Suc k"]) simp
    qed
  next
    case False
    from Cons.IH [of "i + 1" minTime minIndex] show ?thesis
    proof
      assume "find_LRU_from ls (i + 1) minTime minIndex = minIndex \<and>
        (\<forall>l' \<in> set ls. minTime \<le> timeStamp l')"
      with False show ?thesis
        by auto
    next
      assume "\<exists>k<length ls. find_LRU_from ls (i + 1) minTime minIndex = i + 1 + int k \<and>
        timeStamp (ls ! k) < minTime \<and>
        (\<forall>j<length ls. timeStamp (ls ! k) \<le> timeStamp (ls ! j)) \<and>
        (\<forall>j<k. timeStamp (ls ! k) < timeStamp (ls ! j))"
      then obtain k where k: "k < length ls"
        "find_LRU_from ls (i + 1) minTime minIndex = i + 1 + int k"
        "timeStamp (ls ! k) < minTime"
        "\<forall>j<length ls. timeStamp (ls ! k) \<le> timeStamp (ls ! j)"
        "\<forall>j<k. timeStamp (ls ! k) < timeStamp (ls ! j)"
        by blast
      from False k(3,4) have "\<forall>j < length (l # ls). timeStamp (ls ! k) \<le> timeStamp ((l # ls) ! j)"
        by (auto simp: nth_Cons split: nat.splits)
      moreover from False k(3,5) have "\<forall>j < Suc k. timeStamp (ls ! k) < timeStamp ((l # ls) ! j)"
        by (auto simp: nth_Cons split: nat.splits)
      ultimately show ?thesis
        using False k(1,2,3) by (intro disjI2 exI [of _ "Suc k"]) simp
    qed
  qed
qed

text \<open>
  \<open>find_LRU\<close> returns the first line with the smallest time stamp when some line is
  stamped below the initial value of \<^verbatim>\<open>minTime\<close>, and \<open>- 1\<close> otherwise.
\<close>

lemma find_LRU_below_sentinel:
  assumes "\<exists>l \<in> set row. timeStamp l < 9999999"
  shows "\<exists>k < length row. find_LRU row = int k \<and>
      (\<forall>j < length row. timeStamp (row ! k) \<le> timeStamp (row ! j)) \<and>
      (\<forall>j < k. timeStamp (row ! k) < timeStamp (row ! j))"
  using find_LRU_from_cases [of row 0 9999999 "- 1"] assms
  by (auto simp: find_LRU_def)

lemma find_LRU_at_sentinel:
  assumes "\<forall>l \<in> set row. 9999999 \<le> timeStamp l"
  shows "find_LRU row = - 1"
proof -
  from assms have "\<not> timeStamp (row ! k) < 9999999" if "k < length row" for k
    using that nth_mem [of k row] by fastforce
  with find_LRU_from_cases [of row 0 9999999 "- 1"] show ?thesis
    by (auto simp: find_LRU_def)
qed


section \<open>Replacing one line of the cache\<close>

lemma lines_ok_update:
  assumes "lines_ok c" and "line_ok l"
  shows "lines_ok (c[i := (c ! i)[k := l]])"
proof -
  have "list_all line_ok r" if "r \<in> set (c[i := (c ! i)[k := l]])" for r
  proof -
    from that set_update_subset_insert [of c i "(c ! i)[k := l]"]
    have "r = (c ! i)[k := l] \<or> r \<in> set c"
      by auto
    then show ?thesis
    proof
      assume r: "r = (c ! i)[k := l]"
      show ?thesis
      proof (cases "i < length c")
        case True
        with assms(1) have "list_all line_ok (c ! i)"
          by (simp add: lines_ok_def list_all_length)
        with assms(2) show ?thesis
          unfolding r list_all_iff using set_update_subset_insert [of "c ! i" k l]
          by auto
      next
        case False
        with that assms(1) show ?thesis
          by (simp add: lines_ok_def list_all_iff list_update_beyond)
      qed
    next
      assume "r \<in> set c"
      with assms(1) show ?thesis
        by (simp add: lines_ok_def list_all_iff)
    qed
  qed
  then show ?thesis
    by (simp add: lines_ok_def list_all_iff)
qed

lemma filter_update_count:
  assumes "k < length xs"
  shows "int (length (filter P (xs[k := y]))) =
     int (length (filter P xs)) - of_bool (P (xs ! k)) + of_bool (P y)"
  using assms
proof (induction xs arbitrary: k)
  case Nil
  then show ?case by simp
next
  case (Cons x xs)
  then show ?case
    by (cases k) auto
qed

lemma dirty_lines_update:
  assumes "i < length c" and "k < length (c ! i)"
  shows "int (dirty_lines (c[i := (c ! i)[k := l]])) =
     int (dirty_lines c) - of_bool (valid_dirty (c ! i ! k)) + of_bool (valid_dirty l)"
  using assms
proof (induction c arbitrary: i)
  case Nil
  then show ?case by simp
next
  case (Cons r c)
  show ?case
  proof (cases i)
    case 0
    with Cons.prems filter_update_count [of k r valid_dirty l] show ?thesis
      by (simp add: dirty_lines_def)
  next
    case (Suc i')
    with Cons.prems Cons.IH [of i'] show ?thesis
      by (simp add: dirty_lines_def)
  qed
qed

lemma stamps_ok_mono: "stamps_ok t row \<Longrightarrow> t \<le> t' \<Longrightarrow> stamps_ok t' row"
  by (fastforce simp: stamps_ok_def)

lemma stamps_ok_touch:
  assumes "stamps_ok t row" and "timeStamp l = t + 1"
  shows "stamps_ok (t + 1) (row[k := l])"
  unfolding stamps_ok_def
proof (intro conjI allI impI)
  fix i
  assume "i < length (row[k := l])" "valid (row[k := l] ! i) = 1"
  with assms show "timeStamp (row[k := l] ! i) \<le> t + 1"
    by (cases "i = k") (fastforce simp: stamps_ok_def)+
next
  fix i j
  assume ij: "i < length (row[k := l])" "j < length (row[k := l])"
    "i \<noteq> j \<and> valid (row[k := l] ! i) = 1 \<and> valid (row[k := l] ! j) = 1"
  from assms(1) have le: "\<And>n. n < length row \<Longrightarrow> valid (row ! n) = 1 \<Longrightarrow> timeStamp (row ! n) \<le> t"
    by (simp add: stamps_ok_def)
  from assms(1) have ne: "\<And>n m. n < length row \<Longrightarrow> m < length row \<Longrightarrow> n \<noteq> m \<Longrightarrow>
      valid (row ! n) = 1 \<Longrightarrow> valid (row ! m) = 1 \<Longrightarrow> timeStamp (row ! n) \<noteq> timeStamp (row ! m)"
    by (simp add: stamps_ok_def)
  consider "i = k" | "j = k" | "i \<noteq> k" "j \<noteq> k"
    by blast
  then show "timeStamp (row[k := l] ! i) \<noteq> timeStamp (row[k := l] ! j)"
  proof cases
    case 1
    with ij le [of j] assms(2) show ?thesis by auto
  next
    case 2
    with ij le [of i] assms(2) show ?thesis by auto
  next
    case 3
    with ij ne [of i j] show ?thesis by auto
  qed
qed

lemma stamps_ok_cache_update:
  assumes "list_all (stamps_ok t) c" and "timeStamp l = t + 1"
  shows "list_all (stamps_ok (t + 1)) (c[i := (c ! i)[k := l]])"
proof -
  have "stamps_ok (t + 1) r" if "r \<in> set (c[i := (c ! i)[k := l]])" for r
  proof -
    from that set_update_subset_insert [of c i "(c ! i)[k := l]"]
    have "r = (c ! i)[k := l] \<and> i < length c \<or> r \<in> set c"
      by (cases "i < length c") (auto simp: list_update_beyond)
    then show ?thesis
    proof
      assume r: "r = (c ! i)[k := l] \<and> i < length c"
      with assms(1) have "stamps_ok t (c ! i)"
        by (simp add: list_all_length)
      from stamps_ok_touch [OF this assms(2)] r show ?thesis
        by simp
    next
      assume "r \<in> set c"
      with assms(1) have "stamps_ok t r"
        by (simp add: list_all_iff)
      then show ?thesis
        by (rule stamps_ok_mono) simp
    qed
  qed
  then show ?thesis
    by (simp add: list_all_iff)
qed

section \<open>One access, seen from the invariant\<close>

lemma lines_ok_nth:
  "lines_ok c \<Longrightarrow> i < length c \<Longrightarrow> k < length (c ! i) \<Longrightarrow> line_ok (c ! i ! k)"
  by (simp add: lines_ok_def list_all_length)

lemma full_line_valid:
  assumes "find_empty_line row = - 1" and "k < length row" and "line_ok (row ! k)"
  shows "valid (row ! k) = 1"
proof -
  from assms(1,2) have "valid (row ! k) \<noteq> 0"
    by (simp add: find_empty_line_full_iff)
  with assms(3) show ?thesis
    by (auto simp: line_ok_def)
qed

lemma load_cache_touches:
  assumes ok: "lines_ok (cache st)" and "load_cache tg si st = Inr st'"
  shows "\<exists>k l. touches st st' (nat si) k l"
  using assms(2)
proof (cases rule: load_cache_cases)
  case (hit k)
  let ?l = "cache st ! nat si ! k"
  from ok hit have "line_ok ?l"
    by (simp add: lines_ok_nth)
  moreover from find_matched_line_first [OF hit(4)] have "valid ?l = 1"
    by simp
  ultimately have "touches st st' (nat si) k (?l\<lparr>timeStamp := time st + 1\<rparr>)"
    using hit(2,3) by (simp add: touches_def hit(5) valid_dirty_def line_ok_def)
  then show ?thesis by blast
next
  case (fill k)
  from find_empty_line_first [OF fill(5)] have "valid (cache st ! nat si ! k) = 0"
    by simp
  then have "touches st st' (nat si) k \<lparr>valid = 1, tag = tg, dirty = 0, timeStamp = time st + 1\<rparr>"
    using fill(2,3) by (simp add: touches_def fill(6) valid_dirty_def line_ok_def)
  then show ?thesis by blast
next
  case (evict_clean k)
  have "touches st st' (nat si) k \<lparr>valid = 1, tag = tg, dirty = 0, timeStamp = time st + 1\<rparr>"
    using evict_clean(2,3,7)
    by (simp add: touches_def evict_clean(8) valid_dirty_def line_ok_def)
  then show ?thesis by blast
next
  case (evict_dirty k)
  from ok evict_dirty have "line_ok (cache st ! nat si ! k)"
    by (simp add: lines_ok_nth)
  from full_line_valid [OF evict_dirty(5,3) this]
  have "touches st st' (nat si) k \<lparr>valid = 1, tag = tg, dirty = 0, timeStamp = time st + 1\<rparr>"
    using evict_dirty(2,3,7)
    by (simp add: touches_def evict_dirty(8) valid_dirty_def line_ok_def)
  then show ?thesis by blast
qed

lemma store_cache_touches:
  assumes ok: "lines_ok (cache st)" and "store_cache tg si st = Inr st'"
  shows "\<exists>k l. touches st st' (nat si) k l"
  using assms(2)
proof (cases rule: store_cache_cases)
  case (hit_clean k)
  from find_matched_line_first [OF hit_clean(4)] have "valid (cache st ! nat si ! k) = 1"
    by simp
  then have "touches st st' (nat si) k
      ((cache st ! nat si ! k)\<lparr>timeStamp := time st + 1, dirty := 1\<rparr>)"
    using hit_clean(2,3,5)
    by (simp add: touches_def hit_clean(6) valid_dirty_def line_ok_def)
  then show ?thesis by blast
next
  case (hit_dirty k)
  let ?l = "cache st ! nat si ! k"
  from ok hit_dirty have "line_ok ?l"
    by (simp add: lines_ok_nth)
  moreover from find_matched_line_first [OF hit_dirty(4)] have "valid ?l = 1"
    by simp
  ultimately have "touches st st' (nat si) k (?l\<lparr>timeStamp := time st + 1\<rparr>)"
    using hit_dirty(2,3) by (simp add: touches_def hit_dirty(6) valid_dirty_def line_ok_def)
  then show ?thesis by blast
next
  case (fill k)
  let ?l = "cache st ! nat si ! k"
  from ok fill have "line_ok ?l"
    by (simp add: lines_ok_nth)
  moreover from find_empty_line_first [OF fill(5)] have "valid ?l = 0"
    by simp
  ultimately have "valid ?l = 0" "dirty ?l = 0"
    by (auto simp: line_ok_def)
  then have "touches st st' (nat si) k \<lparr>valid = 1, tag = tg, dirty = 1, timeStamp = time st + 1\<rparr>"
    using fill(2,3) by (simp add: touches_def fill(6) valid_dirty_def line_ok_def)
  then show ?thesis by blast
next
  case (evict_dirty k)
  from ok evict_dirty have "line_ok (cache st ! nat si ! k)"
    by (simp add: lines_ok_nth)
  from full_line_valid [OF evict_dirty(5,3) this]
  have "touches st st' (nat si) k \<lparr>valid = 1, tag = tg, dirty = 1, timeStamp = time st + 1\<rparr>"
    using evict_dirty(2,3,7)
    by (simp add: touches_def evict_dirty(8) valid_dirty_def line_ok_def)
  then show ?thesis by blast
next
  case (evict_clean k)
  from ok evict_clean have "line_ok (cache st ! nat si ! k)"
    by (simp add: lines_ok_nth)
  with evict_clean(7) have "dirty (cache st ! nat si ! k) = 0"
    by (auto simp: line_ok_def)
  then have "touches st st' (nat si) k \<lparr>valid = 1, tag = tg, dirty = 1, timeStamp = time st + 1\<rparr>"
    using evict_clean(2,3)
    by (simp add: touches_def evict_clean(8) valid_dirty_def line_ok_def)
  then show ?thesis by blast
qed

lemma trace_step_touches:
  assumes "lines_ok (cache st)" and "trace_step r s b st = Inr st'"
  shows "\<exists>i k l. touches st st' i k l"
proof -
  obtain action addr sz where r: "r = (action, addr, sz)"
    by (cases r)
  from assms(2) obtain tg si where
    "load_cache tg si st = Inr st' \<or> store_cache tg si st = Inr st'"
    by (auto simp: trace_step_def r bind_err_Inr_iff split: if_splits)
  with assms(1) load_cache_touches store_cache_touches show ?thesis
    by blast
qed

section \<open>The invariant holds throughout a run\<close>

lemma touches_inv:
  assumes inv: "cache_inv st" and t: "touches st st' i k l"
  shows "cache_inv st'"
  unfolding cache_inv_def
proof (intro conjI)
  from t have i: "i < length (cache st)" and k: "k < length (cache st ! i)"
    and l: "line_ok l" "timeStamp l = time st + 1"
    and c: "cache st' = (cache st)[i := (cache st ! i)[k := l]]"
    and tm: "time st' = time st + 1"
    and hm: "hit st' + miss st' = hit st + miss st + 1"
    and d: "dirtyInCache st' =
      dirtyInCache st - of_bool (valid_dirty (cache st ! i ! k)) + of_bool (valid_dirty l)"
    by (auto simp: touches_def)
  from inv l(1) show "lines_ok (cache st')"
    unfolding c by (intro lines_ok_update) (simp_all add: cache_inv_def)
  from inv d dirty_lines_update [OF i k, of l]
  show "dirtyInCache st' = int (dirty_lines (cache st'))"
    unfolding c by (simp add: cache_inv_def)
  from inv have "list_all (stamps_ok (time st)) (cache st)"
    unfolding cache_inv_def by blast
  from stamps_ok_cache_update [OF this l(2)]
  show "list_all (stamps_ok (time st')) (cache st')"
    unfolding c tm .
  from inv tm hm show "time st' = hit st' + miss st'"
    by (simp add: cache_inv_def)
qed

lemma trace_step_inv:
  assumes "cache_inv st" and "trace_step r s b st = Inr st'"
  shows "cache_inv st'"
proof -
  from assms(1) have "lines_ok (cache st)"
    by (simp add: cache_inv_def)
  from trace_step_touches [OF this assms(2)] touches_inv [OF assms(1)] show ?thesis
    by blast
qed

lemma process_trace_file_inv:
  assumes "cache_inv st" and "process_trace_file trace s E b st = Inr st'"
  shows "cache_inv st' \<and> time st' = time st + int (length trace)"
  using assms
proof (induction trace arbitrary: st)
  case Nil
  then show ?case by simp
next
  case (Cons r rest)
  from Cons.prems(2) obtain st1 where st1: "trace_step r s b st = Inr st1"
    and rest: "process_trace_file rest s E b st1 = Inr st'"
    by (auto split: sum.splits)
  from trace_step_inv [OF Cons.prems(1) st1] have inv1: "cache_inv st1" .
  from Cons.prems(1) have "lines_ok (cache st)"
    by (simp add: cache_inv_def)
  from trace_step_touches [OF this st1] have "time st1 = time st + 1"
    by (auto simp: touches_def)
  with Cons.IH [OF inv1 rest] show ?case
    by simp
qed

lemma init_cache_inv:
  assumes "init_cache s b E (globals0\<lparr>gE := E\<rparr>) = Inr st0"
  shows "cache_inv st0 \<and> time st0 = 0"
proof -
  let ?l0 = "\<lparr>valid = 0, tag = 0, dirty = 0, timeStamp = 0\<rparr>"
  from assms obtain S B where st0: "st0 = globals0\<lparr>gE := E, gS := S, gB := B,
      cache := replicate (nat S) (replicate (nat E) ?l0)\<rparr>"
    by (auto simp: init_cache_def bind_err_Inr_iff)
  have "filter valid_dirty (replicate n ?l0) = []" for n
    by (simp add: valid_dirty_def)
  then have "dirty_lines (replicate m (replicate n ?l0)) = 0" for m n
    by (simp add: dirty_lines_def sum_list_replicate)
  moreover have "lines_ok (replicate m (replicate n ?l0))" for m n
    by (simp add: lines_ok_def list_all_iff line_ok_def)
  moreover have "list_all (stamps_ok 0) (replicate m (replicate n ?l0))" for m n
    by (simp add: list_all_iff stamps_ok_def)
  ultimately show ?thesis
    by (simp add: st0 cache_inv_def globals0_def)
qed

lemma run_inv:
  assumes "init_cache s b E (globals0\<lparr>gE := E\<rparr>) = Inr st0"
    and "process_trace_file trace s E b st0 = Inr st"
  shows "cache_inv st \<and> time st = int (length trace)"
  using init_cache_inv [OF assms(1)] process_trace_file_inv [OF _ assms(2)]
  by simp


section \<open>The shape of the cache\<close>

text \<open>
  The arrays keep the sizes they were allocated with: \<open>2 ^ s\<close> sets of \<open>E\<close> lines.
\<close>

lemma touches_shape:
  assumes "touches st st' i k l"
  shows "map length (cache st') = map length (cache st)"
proof -
  from assms have i: "i < length (cache st)"
    and c: "cache st' = (cache st)[i := (cache st ! i)[k := l]]"
    by (simp_all add: touches_def)
  have "map length (cache st') = (map length (cache st))[i := length (cache st ! i)]"
    unfolding c by (simp add: map_update)
  also from i have "\<dots> = map length (cache st)"
    by (simp add: list_update_same_conv)
  finally show ?thesis .
qed

lemma process_trace_file_shape:
  assumes "lines_ok (cache st)" and "process_trace_file trace s E b st = Inr st'"
  shows "map length (cache st') = map length (cache st)"
  using assms
proof (induction trace arbitrary: st)
  case Nil
  then show ?case by simp
next
  case (Cons r rest)
  from Cons.prems(2) obtain st1 where st1: "trace_step r s b st = Inr st1"
    and rest: "process_trace_file rest s E b st1 = Inr st'"
    by (auto split: sum.splits)
  from trace_step_touches [OF Cons.prems(1) st1] obtain i k l where t: "touches st st1 i k l"
    by blast
  then have "lines_ok (cache st1)"
    using Cons.prems(1) by (auto simp: touches_def intro: lines_ok_update)
  from Cons.IH [OF this rest] touches_shape [OF t] show ?case
    by simp
qed

lemma run_shape:
  assumes "init_cache s b E (globals0\<lparr>gE := E\<rparr>) = Inr st0"
    and "process_trace_file trace s E b st0 = Inr st"
  shows "map length (cache st) = replicate (2 ^ nat s) (nat E)"
proof -
  from assms(1) have "cache st0 = replicate (nat (2 ^ nat s))
      (replicate (nat E) \<lparr>valid = 0, tag = 0, dirty = 0, timeStamp = 0\<rparr>)"
    by (auto simp: init_cache_def bind_err_Inr_iff shl_int_def split: if_splits)
  then have "map length (cache st0) = replicate (2 ^ nat s) (nat E)"
    by (simp add: nat_power_eq)
  moreover from init_cache_inv [OF assms(1)] have "lines_ok (cache st0)"
    by (simp add: cache_inv_def)
  from process_trace_file_shape [OF this assms(2)]
  have "map length (cache st) = map length (cache st0)" .
  ultimately show ?thesis
    by simp
qed

section \<open>Unfolding a concrete run\<close>

lemmas run_defs = init_cache_def shl_int_def shr_ulong_def bind_err_def globals0_def
  INT_MAX_def INT_MIN_def trace_step_def addr_tag_def addr_setIndex_def MAX_SIZE_def
  load_cache_def store_cache_def incr_def decr_def row_at_def line_at_def put_line_def
  set_cache_def find_matched_line_def find_empty_line_def find_LRU_def Let_def
  main_def checkValidInput_def mul_int_def


section \<open>Traces\<close>

lemma bind_err_Inl_iff:
  "bind_err m f = Inl e \<longleftrightarrow> m = Inl e \<or> (\<exists>x. m = Inr x \<and> f x = Inl e)"
  by (cases m) (simp_all add: bind_err_def)

lemma process_trace_file_append:
  "process_trace_file (xs @ ys) s E b st =
     bind_err (process_trace_file xs s E b st) (process_trace_file ys s E b)"
  by (induction xs arbitrary: st) (simp_all add: bind_err_def split: sum.splits)

text \<open>Undefined behaviour is never reported as a size error.\<close>

lemma bind_err_not_size:
  assumes "m \<noteq> Inl SizeOutOfRange" and "\<And>x. f x \<noteq> Inl SizeOutOfRange"
  shows "bind_err m f \<noteq> Inl SizeOutOfRange"
  using assms by (cases m) (simp_all add: bind_err_def)

lemma arith_not_size:
  "incr x \<noteq> Inl SizeOutOfRange" "decr x \<noteq> Inl SizeOutOfRange"
  "row_at c si \<noteq> Inl SizeOutOfRange" "line_at row li \<noteq> Inl SizeOutOfRange"
  "shl_int x k \<noteq> Inl SizeOutOfRange" "shr_ulong a k \<noteq> Inl SizeOutOfRange"
  by (simp_all add: incr_def decr_def row_at_def line_at_def shl_int_def shr_ulong_def)

lemma set_cache_not_size: "set_cache tg si li st \<noteq> Inl SizeOutOfRange"
  unfolding set_cache_def
  by (intro bind_err_not_size arith_not_size) simp

lemma load_cache_not_size: "load_cache tg si st \<noteq> Inl SizeOutOfRange"
  unfolding load_cache_def Let_def
  by (intro bind_err_not_size arith_not_size set_cache_not_size
      | simp only: if_split [of "\<lambda>r. r \<noteq> Inl SizeOutOfRange"] | intro conjI impI | simp)+

lemma store_cache_not_size: "store_cache tg si st \<noteq> Inl SizeOutOfRange"
  unfolding store_cache_def Let_def
  by (intro bind_err_not_size arith_not_size set_cache_not_size
      | simp only: if_split [of "\<lambda>r. r \<noteq> Inl SizeOutOfRange"] split_paired_all prod.case
      | intro conjI impI | simp)+

lemma trace_step_size_iff:
  "trace_step (action, addr, sz) s b st = Inl SizeOutOfRange \<longleftrightarrow> sz < 0 \<or> MAX_SIZE \<le> sz"
  by (auto simp: trace_step_def bind_err_Inl_iff addr_tag_def addr_setIndex_def shr_ulong_def
      shl_int_def load_cache_not_size store_cache_not_size split: if_splits)

lemma process_trace_file_size:
  assumes "process_trace_file trace s E b st = Inl SizeOutOfRange"
  shows "\<exists>(action, addr, sz) \<in> set trace. sz < 0 \<or> MAX_SIZE \<le> sz"
  using assms
proof (induction trace arbitrary: st)
  case Nil
  then show ?case by simp
next
  case (Cons r rest)
  obtain action addr sz where r: "r = (action, addr, sz)"
    by (cases r)
  show ?case
  proof (cases "trace_step r s b st")
    case (Inl e)
    with Cons.prems r show ?thesis
      by (auto simp: trace_step_size_iff)
  next
    case (Inr st1)
    with Cons.prems Cons.IH [of st1] show ?thesis
      by auto
  qed
qed

text \<open>Loading the one block that a one-line cache holds, \<open>n\<close> times over.\<close>

lemma repeated_hits:
  assumes "t + int n \<le> INT_MAX" and "h + int n \<le> INT_MAX"
  shows "process_trace_file (replicate n (CHR ''L'', 0, 1)) 0 1 0
      \<lparr>cache = [[\<lparr>valid = 1, tag = 0, dirty = 0, timeStamp = t\<rparr>]],
        hit = h, miss = m, eviction = ev, dirtyInCache = dc, dirtyEvicted = de, time = t,
        gS = 1, gB = 1, gE = 1\<rparr> =
    Inr \<lparr>cache = [[\<lparr>valid = 1, tag = 0, dirty = 0, timeStamp = t + int n\<rparr>]],
        hit = h + int n, miss = m, eviction = ev, dirtyInCache = dc, dirtyEvicted = de,
        time = t + int n, gS = 1, gB = 1, gE = 1\<rparr>"
  using assms
proof (induction n arbitrary: t h)
  case 0
  then show ?case by simp
next
  case (Suc n)
  from Suc.prems have "t < INT_MAX" "h < INT_MAX"
    by simp_all
  then have "trace_step (CHR ''L'', 0, 1) 0 0
      \<lparr>cache = [[\<lparr>valid = 1, tag = 0, dirty = 0, timeStamp = t\<rparr>]],
        hit = h, miss = m, eviction = ev, dirtyInCache = dc, dirtyEvicted = de, time = t,
        gS = 1, gB = 1, gE = 1\<rparr> =
    Inr \<lparr>cache = [[\<lparr>valid = 1, tag = 0, dirty = 0, timeStamp = t + 1\<rparr>]],
        hit = h + 1, miss = m, eviction = ev, dirtyInCache = dc, dirtyEvicted = de,
        time = t + 1, gS = 1, gB = 1, gE = 1\<rparr>"
    by (simp add: trace_step_def addr_tag_def addr_setIndex_def shr_ulong_def shl_int_def
        MAX_SIZE_def bind_err_def load_cache_def incr_def row_at_def line_at_def put_line_def
        find_matched_line_def Let_def) (simp add: INT_MAX_def)
  moreover from Suc.prems have "t + 1 + int n \<le> INT_MAX" "h + 1 + int n \<le> INT_MAX"
    by simp_all
  note Suc.IH [OF this]
  ultimately show ?case
    by (simp add: add.assoc add.commute [of 1])
qed

section \<open>Splitting an address\<close>

text \<open>
  For \<open>s + b \<le> 30\<close> the mask fits an \<^verbatim>\<open>int\<close> and the two expressions compute the tag
  and the set index of the address.
\<close>

lemma shl_int_one_small:
  assumes "0 \<le> k" and "k \<le> 30"
  shows "shl_int 1 k = Inr (2 ^ nat k)"
proof -
  from assms have "nat k \<le> 30"
    by simp
  then have "(2::int) ^ nat k \<le> 2 ^ 30"
    by (intro power_increasing) simp_all
  with assms show ?thesis
    by (simp add: shl_int_def INT_MAX_def)
qed

lemma address_split_small:
  assumes "0 \<le> s" and "0 \<le> b" and "s + b \<le> 30"
  shows "addr_tag s b addr = Inr (drop_bit (nat (s + b)) addr) \<and>
     addr_setIndex s b addr = Inr (int (unat (drop_bit (nat b) addr) mod 2 ^ nat s))"
proof -
  let ?w = "take_bit (nat s) (drop_bit (nat b) addr)"
  from assms have tag: "addr_tag s b addr = Inr (drop_bit (nat (s + b)) addr)"
    by (simp add: addr_tag_def shr_ulong_def)
  have mask: "(word_of_int (2 ^ nat (s + b) - 1) :: 64 word) = mask (nat (s + b))"
    by (simp add: mask_eq_exp_minus_1)
  from assms have "nat (s + b) - nat b = nat s"
    by simp
  then have w: "drop_bit (nat b) (addr AND mask (nat (s + b))) = ?w"
    by (simp add: take_bit_eq_mask [symmetric] drop_bit_take_bit)
  have "uint ?w = take_bit (nat s) (uint (drop_bit (nat b) addr))"
    by (simp only: unsigned_take_bit_eq)
  also have "\<dots> = uint (drop_bit (nat b) addr) mod 2 ^ nat s"
    by (simp only: take_bit_eq_mod)
  also have "\<dots> = int (unat (drop_bit (nat b) addr)) mod 2 ^ nat s"
    by (simp only: uint_nat)
  also have "\<dots> = int (unat (drop_bit (nat b) addr) mod 2 ^ nat s)"
    by (simp only: of_nat_mod of_nat_power of_nat_numeral)
  finally have val: "uint ?w = int (unat (drop_bit (nat b) addr) mod 2 ^ nat s)" .
  from assms have "nat s \<le> 30"
    by simp
  then have "(2::int) ^ nat s \<le> 2 ^ 30"
    by (intro power_increasing) simp_all
  moreover have "uint ?w < 2 ^ nat s"
    unfolding \<open>uint ?w = take_bit (nat s) (uint (drop_bit (nat b) addr))\<close>
    by (rule take_bit_int_less_exp)
  ultimately have "uint ?w < 2 ^ 31"
    by simp
  moreover have "- (2 ^ 31) \<le> uint ?w"
    by (rule order_trans [OF _ uint_ge_0]) simp
  ultimately have "signed_take_bit 31 (uint ?w) = uint ?w"
    by (simp add: signed_take_bit_int_eq_self)
  with assms shl_int_one_small [of "s + b"] mask w val
  have "addr_setIndex s b addr = Inr (int (unat (drop_bit (nat b) addr) mod 2 ^ nat s))"
    by (simp add: addr_setIndex_def bind_err_def shr_ulong_def)
  with tag show ?thesis
    by simp
qed

section \<open>The report\<close>

lemma load_cache_gB:
  assumes "load_cache tg si st = Inr st'"
  shows "gB st' = gB st"
  using assms by (cases rule: load_cache_cases) simp_all

lemma store_cache_gB:
  assumes "store_cache tg si st = Inr st'"
  shows "gB st' = gB st"
  using assms by (cases rule: store_cache_cases) simp_all

lemma trace_step_gB:
  assumes "trace_step r s b st = Inr st'"
  shows "gB st' = gB st"
proof -
  obtain action addr sz where r: "r = (action, addr, sz)"
    by (cases r)
  from assms obtain tg si where
    "load_cache tg si st = Inr st' \<or> store_cache tg si st = Inr st'"
    by (auto simp: trace_step_def r bind_err_Inr_iff split: if_splits)
  with load_cache_gB store_cache_gB show ?thesis
    by blast
qed

lemma process_trace_file_gB:
  "process_trace_file trace s E b st = Inr st' \<Longrightarrow> gB st' = gB st"
proof (induction trace arbitrary: st)
  case Nil
  then show ?case by simp
next
  case (Cons r rest)
  then show ?case
    by (auto split: sum.splits dest: trace_step_gB)
qed

text \<open>
  When \<open>main\<close> gets as far as the report, the two byte counts are the line counts
  times \<open>2 ^ b\<close>, converted to \<^verbatim>\<open>unsigned long\<close>; both products fit an \<^verbatim>\<open>int\<close>.
\<close>

lemma main_report:
  assumes "main s b E trace = Inr stats"
  shows "\<exists>st0 st. init_cache s b E (globals0\<lparr>gE := E\<rparr>) = Inr st0 \<and>
      process_trace_file trace s E b st0 = Inr st \<and>
      dirtyInCache st * 2 ^ nat b \<le> INT_MAX \<and> dirtyEvicted st * 2 ^ nat b \<le> INT_MAX \<and>
      dirty_bytes stats = word_of_int (dirtyInCache st * 2 ^ nat b) \<and>
      dirty_evictions stats = word_of_int (dirtyEvicted st * 2 ^ nat b)"
proof -
  from assms obtain st0 st db de where st0: "init_cache s b E (globals0\<lparr>gE := E\<rparr>) = Inr st0"
    and st: "process_trace_file trace s E b st0 = Inr st"
    and db: "mul_int (dirtyInCache st) (gB st) = Inr db"
    and de: "mul_int (dirtyEvicted st) (gB st) = Inr de"
    and stats: "dirty_bytes stats = word_of_int db" "dirty_evictions stats = word_of_int de"
    by (auto simp: main_def bind_err_Inr_iff)
  from st0 have "gB st0 = 2 ^ nat b"
    by (auto simp: init_cache_def bind_err_Inr_iff shl_int_def split: if_splits)
  with process_trace_file_gB [OF st] have "gB st = 2 ^ nat b"
    by simp
  with db de stats have "dirtyInCache st * 2 ^ nat b \<le> INT_MAX \<and>
      dirtyEvicted st * 2 ^ nat b \<le> INT_MAX \<and>
      dirty_bytes stats = word_of_int (dirtyInCache st * 2 ^ nat b) \<and>
      dirty_evictions stats = word_of_int (dirtyEvicted st * 2 ^ nat b)"
    by (auto simp: mul_int_def split: if_splits)
  with st0 st show ?thesis
    by blast
qed


section \<open>Evictions early in a run\<close>

text \<open>
  While the clock is below 9999999, the line that \<open>find_LRU\<close> selects in a full set
  of a reached state is the one valid line with the smallest time stamp.
\<close>

lemma find_LRU_early:
  assumes inv: "cache_inv st" and early: "time st < 9999999"
    and si: "i < length (cache st)"
    and full: "find_empty_line (cache st ! i) = - 1"
    and k: "find_LRU (cache st ! i) = int k" "k < length (cache st ! i)"
  shows "valid (cache st ! i ! k) = 1 \<and>
     (\<forall>j < length (cache st ! i). j \<noteq> k \<longrightarrow>
        valid (cache st ! i ! j) = 1 \<and>
        timeStamp (cache st ! i ! k) < timeStamp (cache st ! i ! j))"
proof -
  let ?row = "cache st ! i"
  from inv have ok: "lines_ok (cache st)" and "list_all (stamps_ok (time st)) (cache st)"
    unfolding cache_inv_def by blast+
  with si have stamps: "stamps_ok (time st) ?row"
    by (simp add: list_all_length)
  have v: "valid (?row ! j) = 1" if "j < length ?row" for j
    using full that lines_ok_nth [OF ok si that] by (rule full_line_valid)
  with stamps have le: "timeStamp (?row ! j) \<le> time st" if "j < length ?row" for j
    using that by (simp add: stamps_ok_def)
  from le [OF k(2)] early k(2) have "\<exists>l \<in> set ?row. timeStamp l < 9999999"
    by (intro bexI [of _ "?row ! k"]) simp_all
  from find_LRU_below_sentinel [OF this] k(1)
  have min: "\<forall>j < length ?row. timeStamp (?row ! k) \<le> timeStamp (?row ! j)"
    by auto
  have "timeStamp (?row ! k) < timeStamp (?row ! j)" if "j < length ?row" "j \<noteq> k" for j
  proof -
    from stamps that k(2) v have "timeStamp (?row ! k) \<noteq> timeStamp (?row ! j)"
      by (simp add: stamps_ok_def)
    with min that(1) show ?thesis
      by (simp add: order_less_le)
  qed
  with v k(2) show ?thesis
    by simp
qed

section \<open>The count of dirty lines\<close>

text \<open>
  Claim C1. In every state that a run reaches from \<open>init_cache\<close> (the trace is any
  sequence of records, so this is the state after each completed load or store of a
  longer run), \<open>dirtyInCache\<close> is the number of lines, over all sets, that are valid
  and dirty. The next access keeps it so without counting anything: it replaces one
  line, subtracts one if the replaced line was valid and dirty and adds one if the new
  line is.
\<close>

theorem dirty_count_invariant:
  assumes "init_cache s b E (globals0\<lparr>gE := E\<rparr>) = Inr st0"
    and "process_trace_file trace s E b st0 = Inr st"
  shows "dirtyInCache st = int (dirty_lines (cache st)) \<and>
    (\<forall>r st'. trace_step r s b st = Inr st' \<longrightarrow>
       (\<exists>i k l. i < length (cache st) \<and> k < length (cache st ! i) \<and>
          cache st' = (cache st)[i := (cache st ! i)[k := l]] \<and>
          dirtyInCache st' =
            dirtyInCache st - of_bool (valid_dirty (cache st ! i ! k)) + of_bool (valid_dirty l) \<and>
          dirtyInCache st' = int (dirty_lines (cache st'))))"
proof (intro conjI allI impI)
  from run_inv [OF assms] have inv: "cache_inv st"
    by simp
  then show "dirtyInCache st = int (dirty_lines (cache st))"
    by (simp add: cache_inv_def)
  fix r st'
  assume step: "trace_step r s b st = Inr st'"
  from inv have "lines_ok (cache st)"
    by (simp add: cache_inv_def)
  from trace_step_touches [OF this step] obtain i k l where t: "touches st st' i k l"
    by blast
  from touches_inv [OF inv t] have "dirtyInCache st' = int (dirty_lines (cache st'))"
    by (simp add: cache_inv_def)
  with t show "\<exists>i k l. i < length (cache st) \<and> k < length (cache st ! i) \<and>
          cache st' = (cache st)[i := (cache st ! i)[k := l]] \<and>
          dirtyInCache st' =
            dirtyInCache st - of_bool (valid_dirty (cache st ! i ! k)) + of_bool (valid_dirty l) \<and>
          dirtyInCache st' = int (dirty_lines (cache st'))"
    unfolding touches_def by blast
qed

theorem dirty_count_invariant_witness:
  "init_cache 0 0 2 (globals0\<lparr>gE := 2\<rparr>) = Inr two_way_fresh \<and>
   process_trace_file [(CHR ''S'', 3, 1), (CHR ''L'', 7, 1)] 0 2 0 two_way_fresh = Inr two_way_full \<and>
   dirtyInCache two_way_full = int (dirty_lines (cache two_way_full)) \<and>
   dirtyInCache two_way_full = 1 \<and>
   trace_step (CHR ''L'', 9, 1) 0 0 two_way_full =
     Inr (two_way_full\<lparr>time := 3, miss := 3, eviction := 1, dirtyEvicted := 1, dirtyInCache := 0,
       cache := [[\<lparr>valid = 1, tag = 9, dirty = 0, timeStamp = 3\<rparr>,
         \<lparr>valid = 1, tag = 7, dirty = 0, timeStamp = 2\<rparr>]]\<rparr>) \<and>
   (0::int) = int (dirty_lines [[\<lparr>valid = 1, tag = 9, dirty = 0, timeStamp = 3\<rparr>,
         \<lparr>valid = 1, tag = 7, dirty = 0, timeStamp = 2\<rparr>]])"
proof -
  let ?st' = "two_way_full\<lparr>time := 3, miss := 3, eviction := 1, dirtyEvicted := 1,
       dirtyInCache := 0,
       cache := [[\<lparr>valid = 1, tag = 9, dirty = 0, timeStamp = 3\<rparr>,
         \<lparr>valid = 1, tag = 7, dirty = 0, timeStamp = 2\<rparr>]]\<rparr>"
  have h1: "init_cache 0 0 2 (globals0\<lparr>gE := 2\<rparr>) = Inr two_way_fresh"
    by (simp add: run_defs two_way_fresh_def numeral_2_eq_2)
  have h2: "process_trace_file [(CHR ''S'', 3, 1), (CHR ''L'', 7, 1)] 0 2 0 two_way_fresh =
      Inr two_way_full"
    by (simp add: run_defs two_way_fresh_def two_way_full_def)
  have h3: "trace_step (CHR ''L'', 9, 1) 0 0 two_way_full = Inr ?st'"
    by (simp add: run_defs two_way_full_def)
  from dirty_count_invariant [OF h1 h2] h3
  have "dirtyInCache two_way_full = int (dirty_lines (cache two_way_full))"
    and "dirtyInCache ?st' = int (dirty_lines (cache ?st'))"
    by blast+
  then show ?thesis
    using h1 h2 h3 by (simp add: two_way_full_def)
qed


section \<open>The victim of an eviction\<close>

text \<open>
  Claim C2: in a full set, a miss overwrites the valid line with the smallest time
  stamp, the lowest index winning a tie; \<open>find_LRU\<close> returns that line's index.
  The code does so only while some line of the set is stamped below 9999999
  (\<open>find_LRU_below_sentinel\<close>, and \<open>find_LRU_early\<close> for the states of a run):
  \<open>find_LRU\<close> starts with \<^verbatim>\<open>minTime = 9999999\<close> and \<^verbatim>\<open>minIndex = -1\<close> and compares
  with \<^verbatim>\<open><\<close>. The theorem runs the code where it fails. With \<open>s = 0\<close>, \<open>b = 0\<close>,
  \<open>E = 1\<close>, 9999999 loads of address 0 leave the only line valid with the stamp
  9999999; the set is full, a load or store of address 1 misses, \<open>find_LRU\<close> returns
  \<open>- 1\<close>, and the access reads \<^verbatim>\<open>cache[0][-1]\<close>: no line of the set is selected.
\<close>

theorem find_LRU_sentinel_failure:
  "init_cache 0 0 1 (globals0\<lparr>gE := 1\<rparr>) = Inr one_line_fresh \<and>
   process_trace_file (replicate 9999999 (CHR ''L'', 0, 1)) 0 1 0 one_line_fresh =
     Inr one_line_hot \<and>
   find_empty_line (cache one_line_hot ! 0) = - 1 \<and>
   find_matched_line (cache one_line_hot ! 0) 1 = - 1 \<and>
   find_LRU (cache one_line_hot ! 0) = - 1 \<and>
   load_cache 1 0 one_line_hot = Inl IndexOutOfBounds \<and>
   store_cache 1 0 one_line_hot = Inl IndexOutOfBounds \<and>
   main 0 0 1 (replicate 9999999 (CHR ''L'', 0, 1) @ [(CHR ''L'', 1, 1)]) =
     Inl IndexOutOfBounds"
proof -
  let ?warm = "\<lparr>cache = [[\<lparr>valid = 1, tag = 0, dirty = 0, timeStamp = 1\<rparr>]],
        hit = 0, miss = 1, eviction = 0, dirtyInCache = 0, dirtyEvicted = 0, time = 1,
        gS = 1, gB = 1, gE = 1\<rparr>"
  have init: "init_cache 0 0 1 (globals0\<lparr>gE := 1\<rparr>) = Inr one_line_fresh"
    by (simp add: run_defs one_line_fresh_def)
  have first: "trace_step (CHR ''L'', 0, 1) 0 0 one_line_fresh = Inr ?warm"
    by (simp add: run_defs one_line_fresh_def)
  have "process_trace_file (replicate 9999998 (CHR ''L'', 0, 1)) 0 1 0 ?warm =
    Inr \<lparr>cache = [[\<lparr>valid = 1, tag = 0, dirty = 0, timeStamp = 1 + int 9999998\<rparr>]],
        hit = 0 + int 9999998, miss = 1, eviction = 0, dirtyInCache = 0, dirtyEvicted = 0,
        time = 1 + int 9999998, gS = 1, gB = 1, gE = 1\<rparr>"
    by (rule repeated_hits) (simp_all add: INT_MAX_def)
  then have rest: "process_trace_file (replicate 9999998 (CHR ''L'', 0, 1)) 0 1 0 ?warm =
      Inr one_line_hot"
    by (simp add: one_line_hot_def)
  have "(9999999::nat) = Suc 9999998"
    by simp
  then have "replicate 9999999 (CHR ''L'', 0 :: 64 word, 1 :: int) =
      (CHR ''L'', 0, 1) # replicate 9999998 (CHR ''L'', 0, 1)"
    by (simp only: replicate_Suc)
  with first rest have run: "process_trace_file (replicate 9999999 (CHR ''L'', 0, 1)) 0 1 0
      one_line_fresh = Inr one_line_hot"
    by simp
  have load: "load_cache 1 0 one_line_hot = Inl IndexOutOfBounds"
    by (simp add: run_defs one_line_hot_def)
  then have last: "process_trace_file [(CHR ''L'', 1, 1)] 0 1 0 one_line_hot =
      Inl IndexOutOfBounds"
    by (simp add: trace_step_def addr_tag_def addr_setIndex_def shr_ulong_def shl_int_def
        MAX_SIZE_def bind_err_def INT_MAX_def)
  have "checkValidInput 0 0 1 = Inr ()"
    by (simp add: checkValidInput_def INT_MAX_def)
  with init run last have "main 0 0 1 (replicate 9999999 (CHR ''L'', 0, 1) @ [(CHR ''L'', 1, 1)]) =
     Inl IndexOutOfBounds"
    by (simp add: main_def process_trace_file_append bind_err_def)
  moreover have "store_cache 1 0 one_line_hot = Inl IndexOutOfBounds"
    by (simp add: run_defs one_line_hot_def)
  moreover have "find_empty_line (cache one_line_hot ! 0) = - 1"
    "find_matched_line (cache one_line_hot ! 0) 1 = - 1"
    "find_LRU (cache one_line_hot ! 0) = - 1"
    by (simp_all add: one_line_hot_def find_empty_line_def find_matched_line_def find_LRU_def)
  ultimately show ?thesis
    using init run load by blast
qed


section \<open>A store that evicts a dirty line\<close>

text \<open>
  Claim C3. A store that misses in a set without a free line and whose victim, the line
  at the index \<open>k\<close> that \<open>find_LRU\<close> returns, is dirty adds one to \<open>dirtyEvicted\<close> and
  one to \<open>eviction\<close> and leaves \<open>dirtyInCache\<close> as it was; the victim's slot holds
  the new line, dirty. The store returns this state unless one of the four counters it
  increments is at \<open>INT_MAX\<close>. (When \<open>find_LRU\<close> returns \<open>- 1\<close> there is no victim and
  the store fails, see \<open>find_LRU_at_sentinel\<close>.) With \<open>s = 0\<close>, \<open>b = 0\<close>, \<open>E = 1\<close> the
  stream of a store to address 0 and a store to address 1 is reported with 1 eviction,
  1 dirty eviction and 1 dirty byte.
\<close>

theorem store_evicts_dirty_victim:
  assumes "0 \<le> si" and "nat si < length (cache st)"
    and "\<forall>l \<in> set (cache st ! nat si). \<not> (valid l = 1 \<and> tag l = tg)"
    and "\<forall>l \<in> set (cache st ! nat si). valid l \<noteq> 0"
    and "find_LRU (cache st ! nat si) = int k" and "k < length (cache st ! nat si)"
    and "dirty (cache st ! nat si ! k) = 1"
  shows "store_cache tg si st =
      (if time st < INT_MAX \<and> miss st < INT_MAX \<and> dirtyEvicted st < INT_MAX \<and>
          eviction st < INT_MAX then
         Inr (st\<lparr>time := time st + 1, miss := miss st + 1, eviction := eviction st + 1,
           dirtyEvicted := dirtyEvicted st + 1,
           cache := (cache st)[nat si := (cache st ! nat si)[k :=
             \<lparr>valid = 1, tag = tg, dirty = 1, timeStamp = time st + 1\<rparr>]]\<rparr>)
       else Inl SignedOverflow) \<and>
     main 0 0 1 [(CHR ''S'', 0, 1), (CHR ''S'', 1, 1)] =
       Inr \<lparr>hits = 0, misses = 2, evictions = 1, dirty_bytes = 1, dirty_evictions = 1\<rparr>"
proof -
  let ?row = "cache st ! nat si"
  from assms(3) have nomatch: "find_matched_line ?row tg = - 1"
    by (simp add: find_matched_line_miss_iff)
  from assms(4) have full: "find_empty_line ?row = - 1"
    by (simp add: find_empty_line_full_iff)
  from assms(1,2) have si: "si < int (length (cache st))"
    by linarith
  have "store_cache tg si st =
      (if time st < INT_MAX \<and> miss st < INT_MAX \<and> dirtyEvicted st < INT_MAX \<and>
          eviction st < INT_MAX then
         Inr (st\<lparr>time := time st + 1, miss := miss st + 1, eviction := eviction st + 1,
           dirtyEvicted := dirtyEvicted st + 1,
           cache := (cache st)[nat si := ?row[k :=
             \<lparr>valid = 1, tag = tg, dirty = 1, timeStamp = time st + 1\<rparr>]]\<rparr>)
       else Inl SignedOverflow)"
    using assms(1,2,5,6,7) si nomatch full
    by (simp add: store_cache_def bind_err_def incr_def row_at_def line_at_def set_cache_def
        put_line_def Let_def Line_overwrite)
  moreover have "main 0 0 1 [(CHR ''S'', 0, 1), (CHR ''S'', 1, 1)] =
       Inr \<lparr>hits = 0, misses = 2, evictions = 1, dirty_bytes = 1, dirty_evictions = 1\<rparr>"
    by (simp add: run_defs)
  ultimately show ?thesis
    by blast
qed

theorem store_evicts_dirty_victim_witness:
  "find_matched_line (cache two_way_full ! nat 0) 9 = - 1 \<and>
   find_empty_line (cache two_way_full ! nat 0) = - 1 \<and>
   find_LRU (cache two_way_full ! nat 0) = int 0 \<and>
   dirty (cache two_way_full ! nat 0 ! 0) = 1 \<and>
   store_cache 9 0 two_way_full =
     Inr (two_way_full\<lparr>time := 3, miss := 3, eviction := 1, dirtyEvicted := 1,
       cache := [[\<lparr>valid = 1, tag = 9, dirty = 1, timeStamp = 3\<rparr>,
         \<lparr>valid = 1, tag = 7, dirty = 0, timeStamp = 2\<rparr>]]\<rparr>) \<and>
   dirtyEvicted two_way_full + 1 = 1 \<and> eviction two_way_full + 1 = 1 \<and>
   dirtyInCache two_way_full = 1"
proof -
  have h1: "(0::int) \<le> 0" and h2: "nat 0 < length (cache two_way_full)"
    and h3: "\<forall>l \<in> set (cache two_way_full ! nat 0). \<not> (valid l = 1 \<and> tag l = 9)"
    and h4: "\<forall>l \<in> set (cache two_way_full ! nat 0). valid l \<noteq> 0"
    and h5: "find_LRU (cache two_way_full ! nat 0) = int 0"
    and h6: "0 < length (cache two_way_full ! nat 0)"
    and h7: "dirty (cache two_way_full ! nat 0 ! 0) = 1"
    by (simp_all add: two_way_full_def find_LRU_def)
  from store_evicts_dirty_victim [OF h1 h2 h3 h4 h5 h6 h7]
  have "store_cache 9 0 two_way_full =
      (if time two_way_full < INT_MAX \<and> miss two_way_full < INT_MAX \<and>
          dirtyEvicted two_way_full < INT_MAX \<and> eviction two_way_full < INT_MAX then
         Inr (two_way_full\<lparr>time := time two_way_full + 1, miss := miss two_way_full + 1,
           eviction := eviction two_way_full + 1,
           dirtyEvicted := dirtyEvicted two_way_full + 1,
           cache := (cache two_way_full)[nat 0 := (cache two_way_full ! nat 0)[0 :=
             \<lparr>valid = 1, tag = 9, dirty = 1, timeStamp = time two_way_full + 1\<rparr>]]\<rparr>)
       else Inl SignedOverflow)"
    by blast
  then have "store_cache 9 0 two_way_full =
     Inr (two_way_full\<lparr>time := 3, miss := 3, eviction := 1, dirtyEvicted := 1,
       cache := [[\<lparr>valid = 1, tag = 9, dirty = 1, timeStamp = 3\<rparr>,
         \<lparr>valid = 1, tag = 7, dirty = 0, timeStamp = 2\<rparr>]]\<rparr>)"
    by (simp add: two_way_full_def INT_MAX_def)
  moreover from h3 h4 have "find_matched_line (cache two_way_full ! nat 0) 9 = - 1"
    "find_empty_line (cache two_way_full ! nat 0) = - 1"
    by (simp_all only: find_matched_line_miss_iff find_empty_line_full_iff)
  moreover have "dirtyEvicted two_way_full + 1 = 1 \<and> eviction two_way_full + 1 = 1 \<and>
    dirtyInCache two_way_full = 1"
    by (simp add: two_way_full_def)
  ultimately show ?thesis
    using h5 h7 by blast
qed


section \<open>Address bits beyond the width of an int\<close>

text \<open>
  Claim C4: for \<open>s \<ge> 0\<close>, \<open>b \<ge> 0\<close> and \<open>s + b \<le> 64\<close> the tag of an address is
  \<open>address >> (s + b)\<close> and its set index \<open>(address >> b) mod 2 ^ s\<close>. The code
  computes both for \<open>s + b \<le> 30\<close> (\<open>address_split_small\<close>), but it builds the mask
  as \<^verbatim>\<open>1 << (s + b)\<close> from the \<^verbatim>\<open>int\<close> constant 1, while \<open>checkValidInput\<close> admits
  every \<open>s + b \<le> 64\<close>. The theorem runs the code where it fails. With \<open>s = 16\<close> and
  \<open>b = 16\<close> the shift count 32 is the width of \<^verbatim>\<open>int\<close> and the shift is undefined,
  where the claim gives the address \<open>0x10000\<close> the set index 1; with \<open>s + b = 64\<close>
  the shift that computes the tag is undefined as well.
\<close>

theorem address_split_wide_shift:
  "checkValidInput 16 16 1 = Inr () \<and>
   addr_setIndex 16 16 0x10000 = Inl ShiftOutOfRange \<and>
   unat (drop_bit 16 (0x10000 :: 64 word)) mod 2 ^ 16 = 1 \<and>
   main 16 16 1 [(CHR ''S'', 0x10000, 1)] = Inl ShiftOutOfRange \<and>
   checkValidInput 32 32 1 = Inr () \<and>
   addr_tag 32 32 0x10000 = Inl ShiftOutOfRange"
  by (simp add: run_defs drop_bit_eq_div unat_div)


section \<open>The clock and the time stamps\<close>

text \<open>
  Claim C5. The clock starts at 0 and every access that is processed adds exactly one to
  it before the set is searched, so the line the access touches is stamped with the new
  value: after a trace of \<open>n\<close> records the clock is \<open>n\<close>, and the \<open>n\<close> accesses ran
  under the clock values \<open>1, \<dots>, n\<close>, no two under the same. Hence in every state a run
  reaches, two different valid lines of one set have different time stamps.
\<close>

theorem clock_ticks_distinct_stamps:
  assumes "init_cache s b E (globals0\<lparr>gE := E\<rparr>) = Inr st0"
    and "process_trace_file trace s E b st0 = Inr st"
  shows "time st0 = 0 \<and> time st = int (length trace) \<and>
    (\<forall>r st'. trace_step r s b st = Inr st' \<longrightarrow>
       time st' = time st + 1 \<and>
       (\<exists>i k. i < length (cache st') \<and> k < length (cache st' ! i) \<and>
          valid (cache st' ! i ! k) = 1 \<and> timeStamp (cache st' ! i ! k) = time st')) \<and>
    (\<forall>row \<in> set (cache st). \<forall>i < length row. \<forall>j < length row.
       i \<noteq> j \<and> valid (row ! i) = 1 \<and> valid (row ! j) = 1 \<longrightarrow>
       timeStamp (row ! i) \<noteq> timeStamp (row ! j))"
proof (intro conjI allI impI ballI)
  from init_cache_inv [OF assms(1)] show "time st0 = 0"
    by simp
  from run_inv [OF assms] have inv: "cache_inv st" and "time st = int (length trace)"
    by simp_all
  then show "time st = int (length trace)"
    by simp
  from inv have ok: "lines_ok (cache st)"
    by (simp add: cache_inv_def)
  {
    fix r st'
    assume step: "trace_step r s b st = Inr st'"
    from trace_step_touches [OF ok step] obtain i k l where t: "touches st st' i k l"
      by blast
    then show "time st' = time st + 1"
      by (simp add: touches_def)
    from t have "i < length (cache st')" "k < length (cache st' ! i)" "cache st' ! i ! k = l"
      "valid l = 1" "timeStamp l = time st'"
      by (simp_all add: touches_def)
    then show "\<exists>i k. i < length (cache st') \<and> k < length (cache st' ! i) \<and>
          valid (cache st' ! i ! k) = 1 \<and> timeStamp (cache st' ! i ! k) = time st'"
      by blast
  }
  fix row i j
  assume "row \<in> set (cache st)" "i < length row" "j < length row"
    "i \<noteq> j \<and> valid (row ! i) = 1 \<and> valid (row ! j) = 1"
  moreover from inv have "list_all (stamps_ok (time st)) (cache st)"
    unfolding cache_inv_def by blast
  ultimately show "timeStamp (row ! i) \<noteq> timeStamp (row ! j)"
    by (simp add: list_all_iff stamps_ok_def)
qed

theorem clock_ticks_distinct_stamps_witness:
  "init_cache 0 0 2 (globals0\<lparr>gE := 2\<rparr>) = Inr two_way_fresh \<and>
   process_trace_file [(CHR ''S'', 3, 1)] 0 2 0 two_way_fresh = Inr two_way_half \<and>
   time two_way_half = int (length [(CHR ''S'', 3 :: 64 word, 1 :: int)]) \<and>
   trace_step (CHR ''L'', 7, 1) 0 0 two_way_half = Inr two_way_full \<and>
   time two_way_full = time two_way_half + 1"
proof -
  have h1: "init_cache 0 0 2 (globals0\<lparr>gE := 2\<rparr>) = Inr two_way_fresh"
    by (simp add: run_defs two_way_fresh_def numeral_2_eq_2)
  have h2: "process_trace_file [(CHR ''S'', 3, 1)] 0 2 0 two_way_fresh = Inr two_way_half"
    by (simp add: run_defs two_way_fresh_def two_way_half_def)
  have h3: "trace_step (CHR ''L'', 7, 1) 0 0 two_way_half = Inr two_way_full"
    by (simp add: run_defs two_way_half_def two_way_full_def)
  from clock_ticks_distinct_stamps [OF h1 h2] h3
  have "time two_way_half = int (length [(CHR ''S'', 3 :: 64 word, 1 :: int)])"
    and "time two_way_full = time two_way_half + 1"
    by blast+
  with h1 h2 h3 show ?thesis
    by blast
qed


section \<open>Records with a size out of range\<close>

text \<open>
  Claim C6. A record whose size is negative or at least 16 ends the run: whatever
  follows it in the trace, the loop returns the error of an earlier record if there was
  one and the size error otherwise, so neither this record nor a later one reaches the
  cache, and \<open>main\<close> returns an error instead of statistics. A record whose size is
  within \<open>0..15\<close> never raises the size error, and a trace of such records never does.
\<close>

theorem size_out_of_range_is_fatal:
  "(sz < 0 \<or> 16 \<le> sz \<longrightarrow>
      process_trace_file (pre @ (action, addr, sz) # post) s E b st =
        (case process_trace_file pre s E b st of
           Inl e \<Rightarrow> Inl e
         | Inr st' \<Rightarrow> Inl SizeOutOfRange) \<and>
      (\<exists>e. main s b E (pre @ (action, addr, sz) # post) = Inl e)) \<and>
   (0 \<le> sz \<and> sz < 16 \<longrightarrow> trace_step (action, addr, sz) s b st \<noteq> Inl SizeOutOfRange) \<and>
   ((\<forall>(action, addr, sz) \<in> set trace. 0 \<le> sz \<and> sz < 16) \<longrightarrow>
      process_trace_file trace s E b st \<noteq> Inl SizeOutOfRange \<and>
      main s b E trace \<noteq> Inl SizeOutOfRange)"
proof (intro conjI impI)
  assume bad: "sz < 0 \<or> 16 \<le> sz"
  then have step: "trace_step (action, addr, sz) s b st' = Inl SizeOutOfRange" for st'
    by (simp add: trace_step_size_iff MAX_SIZE_def)
  then show run: "process_trace_file (pre @ (action, addr, sz) # post) s E b st' =
        (case process_trace_file pre s E b st' of
           Inl e \<Rightarrow> Inl e
         | Inr st'' \<Rightarrow> Inl SizeOutOfRange)" for st'
    by (simp add: process_trace_file_append bind_err_def split: sum.splits)
  have ex: "\<exists>e. process_trace_file (pre @ (action, addr, sz) # post) s E b st' = Inl e" for st'
    unfolding run by (cases "process_trace_file pre s E b st'") simp_all
  show "\<exists>e. main s b E (pre @ (action, addr, sz) # post) = Inl e"
  proof (cases "checkValidInput s b E")
    case (Inl e)
    then show ?thesis
      by (simp add: main_def bind_err_def)
  next
    case ok: (Inr u)
    show ?thesis
    proof (cases "init_cache s b E (globals0\<lparr>gE := E\<rparr>)")
      case (Inl e)
      with ok show ?thesis
        by (simp add: main_def bind_err_def)
    next
      case (Inr st0)
      from ex [of st0] obtain e where
        "process_trace_file (pre @ (action, addr, sz) # post) s E b st0 = Inl e"
        by blast
      with ok Inr show ?thesis
        by (simp add: main_def bind_err_def)
    qed
  qed
next
  assume "0 \<le> sz \<and> sz < 16"
  then show "trace_step (action, addr, sz) s b st \<noteq> Inl SizeOutOfRange"
    by (simp add: trace_step_size_iff MAX_SIZE_def)
next
  assume ok: "\<forall>(action, addr, sz) \<in> set trace. 0 \<le> sz \<and> sz < 16"
  with process_trace_file_size [of trace s E b]
  show run: "process_trace_file trace s E b st' \<noteq> Inl SizeOutOfRange" for st'
    by (fastforce simp: MAX_SIZE_def)
  show "main s b E trace \<noteq> Inl SizeOutOfRange"
    unfolding main_def
    by (intro bind_err_not_size run) (simp_all add: checkValidInput_def init_cache_def
        mul_int_def shl_int_def bind_err_def)
qed

theorem size_out_of_range_is_fatal_witness:
  "((16::int) < 0 \<or> (16::int) \<le> 16) \<and>
   process_trace_file [(CHR ''L'', 0, 1)] 0 1 0 one_line_fresh =
     Inr (one_line_fresh\<lparr>time := 1, miss := 1,
       cache := [[\<lparr>valid = 1, tag = 0, dirty = 0, timeStamp = 1\<rparr>]]\<rparr>) \<and>
   process_trace_file ([(CHR ''L'', 0, 1)] @ (CHR ''S'', 0, 16) # [(CHR ''L'', 0, 1)]) 0 1 0
     one_line_fresh = Inl SizeOutOfRange \<and>
   (\<exists>e. main 0 0 1 ([(CHR ''L'', 0, 1)] @ (CHR ''S'', 0, 16) # [(CHR ''L'', 0, 1)]) = Inl e) \<and>
   ((0::int) \<le> 15 \<and> (15::int) < 16) \<and>
   trace_step (CHR ''S'', 0, 15) 0 0 one_line_fresh \<noteq> Inl SizeOutOfRange"
proof -
  have h1: "(16::int) < 0 \<or> (16::int) \<le> 16" and h2: "(0::int) \<le> 15 \<and> (15::int) < 16"
    by simp_all
  have pre: "process_trace_file [(CHR ''L'', 0, 1)] 0 1 0 one_line_fresh =
     Inr (one_line_fresh\<lparr>time := 1, miss := 1,
       cache := [[\<lparr>valid = 1, tag = 0, dirty = 0, timeStamp = 1\<rparr>]]\<rparr>)"
    by (simp add: run_defs one_line_fresh_def)
  from size_out_of_range_is_fatal
    [of 16 "[(CHR ''L'', 0, 1)]" "CHR ''S''" 0 "[(CHR ''L'', 0, 1)]" 0 1 0 one_line_fresh] h1 pre
  have "process_trace_file ([(CHR ''L'', 0, 1)] @ (CHR ''S'', 0, 16) # [(CHR ''L'', 0, 1)]) 0 1 0
     one_line_fresh = Inl SizeOutOfRange"
    and "\<exists>e. main 0 0 1 ([(CHR ''L'', 0, 1)] @ (CHR ''S'', 0, 16) # [(CHR ''L'', 0, 1)]) = Inl e"
    by simp_all
  moreover from size_out_of_range_is_fatal [of 15 "[]" "CHR ''S''" 0 "[]" 0 1 0 one_line_fresh] h2
  have "trace_step (CHR ''S'', 0, 15) 0 0 one_line_fresh \<noteq> Inl SizeOutOfRange"
    by simp
  ultimately show ?thesis
    using h1 h2 pre by blast
qed


section \<open>The byte counts of the report\<close>

text \<open>
  Claim C8: for every configuration the report has \<open>dirty_bytes = dirtyInCache * 2 ^ b\<close>
  and \<open>dirty_evictions = dirtyEvicted * 2 ^ b\<close>. \<open>main\<close> multiplies the two counts
  by \<^verbatim>\<open>B\<close> in \<^verbatim>\<open>int\<close> and converts the products to \<^verbatim>\<open>unsigned long\<close> afterwards, so
  the report is as claimed only when the products fit an \<^verbatim>\<open>int\<close> (\<open>main_report\<close>).
  The theorem runs the code where it fails. With \<open>s = 0\<close>, \<open>b = 30\<close>, \<open>E = 1\<close> three
  stores to different blocks evict two dirty lines; \<open>2 * 2 ^ 30\<close> overflows and no
  report with \<open>dirty_evictions = 2 ^ 31\<close> is produced.
\<close>

theorem report_product_overflow:
  "checkValidInput 0 30 1 = Inr () \<and>
   (\<exists>st0. init_cache 0 30 1 (globals0\<lparr>gE := 1\<rparr>) = Inr st0 \<and>
      process_trace_file
        [(CHR ''S'', 0, 1), (CHR ''S'', 0x40000000, 1), (CHR ''S'', 0x80000000, 1)] 0 1 30 st0 =
      Inr big_block_used) \<and>
   dirtyEvicted big_block_used = 2 \<and> gB big_block_used = 2 ^ 30 \<and>
   mul_int (dirtyEvicted big_block_used) (gB big_block_used) = Inl SignedOverflow \<and>
   main 0 30 1 [(CHR ''S'', 0, 1), (CHR ''S'', 0x40000000, 1), (CHR ''S'', 0x80000000, 1)] =
     Inl SignedOverflow"
  by (simp add: run_defs big_block_used_def)


section \<open>Hits plus misses\<close>

text \<open>
  Claim C9. After every processed access the clock equals \<open>hit + miss\<close>, and both equal
  the number of accesses processed: each load or store adds one to the clock and one to
  exactly one of the two counters.
\<close>

theorem clock_is_hit_plus_miss:
  assumes "init_cache s b E (globals0\<lparr>gE := E\<rparr>) = Inr st0"
    and "process_trace_file trace s E b st0 = Inr st"
  shows "time st = hit st + miss st \<and> hit st + miss st = int (length trace) \<and>
    (\<forall>r st'. trace_step r s b st = Inr st' \<longrightarrow>
       time st' = time st + 1 \<and>
       (hit st' = hit st + 1 \<and> miss st' = miss st \<or>
        hit st' = hit st \<and> miss st' = miss st + 1))"
proof (intro conjI allI impI)
  from run_inv [OF assms] have inv: "cache_inv st" and n: "time st = int (length trace)"
    by simp_all
  from inv show "time st = hit st + miss st"
    by (simp add: cache_inv_def)
  with n show "hit st + miss st = int (length trace)"
    by simp
  fix r st'
  assume step: "trace_step r s b st = Inr st'"
  from inv have "lines_ok (cache st)"
    by (simp add: cache_inv_def)
  from trace_step_touches [OF this step] obtain i k l where t: "touches st st' i k l"
    by blast
  then show "time st' = time st + 1"
    by (simp add: touches_def)
  from t show "hit st' = hit st + 1 \<and> miss st' = miss st \<or>
        hit st' = hit st \<and> miss st' = miss st + 1"
    by (simp add: touches_def)
qed

theorem clock_is_hit_plus_miss_witness:
  "init_cache 1 2 1 (globals0\<lparr>gE := 1\<rparr>) = Inr two_sets_fresh \<and>
   process_trace_file [(CHR ''L'', 0x14, 4), (CHR ''S'', 0x16, 2), (CHR ''L'', 0x8, 1)] 1 1 2
     two_sets_fresh = Inr two_sets_used \<and>
   time two_sets_used = hit two_sets_used + miss two_sets_used \<and>
   hit two_sets_used + miss two_sets_used = 3 \<and>
   trace_step (CHR ''S'', 0x9, 1) 1 2 two_sets_used =
     Inr (two_sets_used\<lparr>time := 4, hit := 2, dirtyInCache := 2,
       cache := [[\<lparr>valid = 1, tag = 1, dirty = 1, timeStamp = 4\<rparr>],
         [\<lparr>valid = 1, tag = 2, dirty = 1, timeStamp = 2\<rparr>]]\<rparr>)"
proof -
  have h1: "init_cache 1 2 1 (globals0\<lparr>gE := 1\<rparr>) = Inr two_sets_fresh"
    by (simp add: run_defs two_sets_fresh_def numeral_2_eq_2)
  have h2: "process_trace_file [(CHR ''L'', 0x14, 4), (CHR ''S'', 0x16, 2), (CHR ''L'', 0x8, 1)]
      1 1 2 two_sets_fresh = Inr two_sets_used"
    by (simp add: run_defs two_sets_fresh_def two_sets_used_def)
  have h3: "trace_step (CHR ''S'', 0x9, 1) 1 2 two_sets_used =
     Inr (two_sets_used\<lparr>time := 4, hit := 2, dirtyInCache := 2,
       cache := [[\<lparr>valid = 1, tag = 1, dirty = 1, timeStamp = 4\<rparr>],
         [\<lparr>valid = 1, tag = 2, dirty = 1, timeStamp = 2\<rparr>]]\<rparr>)"
    by (simp add: run_defs two_sets_used_def)
  from clock_is_hit_plus_miss [OF h1 h2]
  have "time two_sets_used = hit two_sets_used + miss two_sets_used"
    and "hit two_sets_used + miss two_sets_used = int (length
      [(CHR ''L'', 0x14 :: 64 word, 4 :: int), (CHR ''S'', 0x16, 2), (CHR ''L'', 0x8, 1)])"
    by blast+
  with h1 h2 h3 show ?thesis
    by simp
qed


section \<open>Load hits\<close>

text \<open>
  Claim C7. A load that hits, that is, whose set holds a valid line with the tag of the
  address, returns the state it was given with exactly three changes: the clock and the
  hit counter are one larger, and the first matching line carries the new clock value
  as its time stamp. The fields \<open>valid\<close>, \<open>tag\<close> and \<open>dirty\<close> of that line, every
  other line of the cache and the counters \<open>miss\<close>, \<open>eviction\<close>, \<open>dirtyInCache\<close> and
  \<open>dirtyEvicted\<close> are those of the state before. The only way such a load fails is
  the overflow of \<open>time\<close> or \<open>hit\<close> at \<open>INT_MAX\<close>.
\<close>

theorem load_hit_frame:
  assumes "0 \<le> si" and "nat si < length (cache st)"
    and "\<exists>l \<in> set (cache st ! nat si). valid l = 1 \<and> tag l = tg"
  shows "\<exists>k < length (cache st ! nat si).
      valid (cache st ! nat si ! k) = 1 \<and> tag (cache st ! nat si ! k) = tg \<and>
      (\<forall>j < k. \<not> (valid (cache st ! nat si ! j) = 1 \<and> tag (cache st ! nat si ! j) = tg)) \<and>
      load_cache tg si st =
        (if time st < INT_MAX \<and> hit st < INT_MAX then
           Inr (st\<lparr>time := time st + 1, hit := hit st + 1,
             cache := (cache st)[nat si := (cache st ! nat si)[k :=
               (cache st ! nat si ! k)\<lparr>timeStamp := time st + 1\<rparr>]]\<rparr>)
         else Inl SignedOverflow)"
proof -
  let ?row = "cache st ! nat si"
  from find_matched_line_hit [OF assms(3)] obtain k where k: "k < length ?row"
    "find_matched_line ?row tg = int k" "valid (?row ! k) = 1" "tag (?row ! k) = tg"
    "\<forall>j < k. \<not> (valid (?row ! j) = 1 \<and> tag (?row ! j) = tg)"
    by blast
  have "load_cache tg si st =
        (if time st < INT_MAX \<and> hit st < INT_MAX then
           Inr (st\<lparr>time := time st + 1, hit := hit st + 1,
             cache := (cache st)[nat si := ?row[k := (?row ! k)\<lparr>timeStamp := time st + 1\<rparr>]]\<rparr>)
         else Inl SignedOverflow)"
  proof -
    from assms(1,2) have "si < int (length (cache st))"
      by linarith
    with assms(1) k(1,2) show ?thesis
      by (simp add: load_cache_def bind_err_def incr_def row_at_def line_at_def put_line_def
          Let_def)
  qed
  with k show ?thesis by blast
qed

theorem load_hit_frame_witness:
  "(0::int) \<le> 0 \<and> nat 0 < length (cache two_way_full) \<and>
   (\<exists>l \<in> set (cache two_way_full ! nat 0). valid l = 1 \<and> tag l = 7) \<and>
   load_cache 7 0 two_way_full =
     Inr (two_way_full\<lparr>time := 3, hit := 1,
       cache := [[\<lparr>valid = 1, tag = 3, dirty = 1, timeStamp = 1\<rparr>,
         \<lparr>valid = 1, tag = 7, dirty = 0, timeStamp = 3\<rparr>]]\<rparr>)"
proof -
  have h1: "(0::int) \<le> 0" and h2: "nat 0 < length (cache two_way_full)"
    and h3: "\<exists>l \<in> set (cache two_way_full ! nat 0). valid l = 1 \<and> tag l = 7"
    by (simp_all add: two_way_full_def)
  from load_hit_frame [OF h1 h2 h3] obtain k where
    k: "k < length (cache two_way_full ! nat 0)" "tag (cache two_way_full ! nat 0 ! k) = 7"
    and r: "load_cache 7 0 two_way_full =
        (if time two_way_full < INT_MAX \<and> hit two_way_full < INT_MAX then
           Inr (two_way_full\<lparr>time := time two_way_full + 1, hit := hit two_way_full + 1,
             cache := (cache two_way_full)[nat 0 := (cache two_way_full ! nat 0)[k :=
               (cache two_way_full ! nat 0 ! k)\<lparr>timeStamp := time two_way_full + 1\<rparr>]]\<rparr>)
         else Inl SignedOverflow)"
    by blast
  from k have "k = 1"
    by (cases k) (auto simp: two_way_full_def)
  with r have "load_cache 7 0 two_way_full =
     Inr (two_way_full\<lparr>time := 3, hit := 1,
       cache := [[\<lparr>valid = 1, tag = 3, dirty = 1, timeStamp = 1\<rparr>,
         \<lparr>valid = 1, tag = 7, dirty = 0, timeStamp = 3\<rparr>]]\<rparr>)"
    by (simp add: two_way_full_def INT_MAX_def)
  with h1 h2 h3 show ?thesis by blast
qed


section \<open>Misses in a set with a free line\<close>

text \<open>
  Claim C10. When a load or a store misses and the addressed set has a line that is not
  valid, the line that is filled is the first line of the set whose \<open>valid\<close> field is 0,
  and the counters \<open>eviction\<close> and \<open>dirtyEvicted\<close> keep their values: the state
  returned differs from the state before in the clock, the miss counter and that line
  only, and for a store in \<open>dirtyInCache\<close>. The load fills the line with a clean
  line, the store with a dirty one. Either fails only when a counter it increments is
  at \<open>INT_MAX\<close>.
\<close>

theorem miss_fills_first_free_line:
  assumes "0 \<le> si" and "nat si < length (cache st)"
    and "\<forall>l \<in> set (cache st ! nat si). \<not> (valid l = 1 \<and> tag l = tg)"
    and "\<exists>l \<in> set (cache st ! nat si). valid l = 0"
  shows "\<exists>k < length (cache st ! nat si).
      valid (cache st ! nat si ! k) = 0 \<and> (\<forall>j < k. valid (cache st ! nat si ! j) \<noteq> 0) \<and>
      load_cache tg si st =
        (if time st < INT_MAX \<and> miss st < INT_MAX then
           Inr (st\<lparr>time := time st + 1, miss := miss st + 1,
             cache := (cache st)[nat si := (cache st ! nat si)[k :=
               \<lparr>valid = 1, tag = tg, dirty = 0, timeStamp = time st + 1\<rparr>]]\<rparr>)
         else Inl SignedOverflow) \<and>
      store_cache tg si st =
        (if time st < INT_MAX \<and> miss st < INT_MAX \<and>
            (dirty (cache st ! nat si ! k) = 0 \<longrightarrow> dirtyInCache st < INT_MAX) then
           Inr (st\<lparr>time := time st + 1, miss := miss st + 1,
             dirtyInCache := (if dirty (cache st ! nat si ! k) = 0 then dirtyInCache st + 1
                              else dirtyInCache st),
             cache := (cache st)[nat si := (cache st ! nat si)[k :=
               \<lparr>valid = 1, tag = tg, dirty = 1, timeStamp = time st + 1\<rparr>]]\<rparr>)
         else Inl SignedOverflow)"
proof -
  let ?row = "cache st ! nat si"
  from assms(3) have nomatch: "find_matched_line ?row tg = - 1"
    by (simp add: find_matched_line_miss_iff)
  from assms(4) have "find_empty_line ?row \<noteq> - 1"
    by (simp add: find_empty_line_full_iff)
  with find_empty_from_cases [of ?row 0] obtain k where k: "k < length ?row"
    "find_empty_line ?row = int k" "valid (?row ! k) = 0" "\<forall>j < k. valid (?row ! j) \<noteq> 0"
    by (auto simp: find_empty_line_def)
  from assms(1,2) have si: "si < int (length (cache st))"
    by linarith
  have load: "load_cache tg si st =
        (if time st < INT_MAX \<and> miss st < INT_MAX then
           Inr (st\<lparr>time := time st + 1, miss := miss st + 1,
             cache := (cache st)[nat si := ?row[k :=
               \<lparr>valid = 1, tag = tg, dirty = 0, timeStamp = time st + 1\<rparr>]]\<rparr>)
         else Inl SignedOverflow)"
    using assms(1,2) si nomatch k(1,2)
    by (simp add: load_cache_def bind_err_def incr_def row_at_def line_at_def set_cache_def
        put_line_def Let_def Line_overwrite)
  have store: "store_cache tg si st =
        (if time st < INT_MAX \<and> miss st < INT_MAX \<and>
            (dirty (?row ! k) = 0 \<longrightarrow> dirtyInCache st < INT_MAX) then
           Inr (st\<lparr>time := time st + 1, miss := miss st + 1,
             dirtyInCache := (if dirty (?row ! k) = 0 then dirtyInCache st + 1
                              else dirtyInCache st),
             cache := (cache st)[nat si := ?row[k :=
               \<lparr>valid = 1, tag = tg, dirty = 1, timeStamp = time st + 1\<rparr>]]\<rparr>)
         else Inl SignedOverflow)"
  proof (cases "dirty (?row ! k) = 0")
    case True
    with assms(1,2) si nomatch k(1,2) show ?thesis
      by (simp add: store_cache_def bind_err_def incr_def row_at_def line_at_def set_cache_def
          put_line_def Let_def Line_overwrite)
  next
    case False
    with assms(1,2) si nomatch k(1,2) show ?thesis
      by (simp add: store_cache_def bind_err_def incr_def row_at_def line_at_def set_cache_def
          put_line_def Let_def Line_overwrite)
  qed
  from k(1,3,4) load store show ?thesis
    by blast
qed

theorem miss_fills_first_free_line_witness:
  "find_matched_line (cache two_way_half ! nat 0) 9 = - 1 \<and>
   find_empty_line (cache two_way_half ! nat 0) = 1 \<and>
   valid (cache two_way_half ! nat 0 ! 1) = 0 \<and>
   valid (cache two_way_half ! nat 0 ! 0) = 1 \<and>
   load_cache 9 0 two_way_half =
     Inr (two_way_half\<lparr>time := 2, miss := 2,
       cache := [[\<lparr>valid = 1, tag = 3, dirty = 1, timeStamp = 1\<rparr>,
         \<lparr>valid = 1, tag = 9, dirty = 0, timeStamp = 2\<rparr>]]\<rparr>) \<and>
   store_cache 9 0 two_way_half =
     Inr (two_way_half\<lparr>time := 2, miss := 2, dirtyInCache := 2,
       cache := [[\<lparr>valid = 1, tag = 3, dirty = 1, timeStamp = 1\<rparr>,
         \<lparr>valid = 1, tag = 9, dirty = 1, timeStamp = 2\<rparr>]]\<rparr>)"
proof -
  let ?row = "cache two_way_half ! nat 0"
  have h1: "(0::int) \<le> 0" and h2: "nat 0 < length (cache two_way_half)"
    and h3: "\<forall>l \<in> set ?row. \<not> (valid l = 1 \<and> tag l = 9)"
    and h4: "\<exists>l \<in> set ?row. valid l = 0"
    by (simp_all add: two_way_half_def)
  from miss_fills_first_free_line [OF h1 h2 h3 h4] obtain k where
    k: "k < length ?row" "valid (?row ! k) = 0"
    and load: "load_cache 9 0 two_way_half =
        (if time two_way_half < INT_MAX \<and> miss two_way_half < INT_MAX then
           Inr (two_way_half\<lparr>time := time two_way_half + 1, miss := miss two_way_half + 1,
             cache := (cache two_way_half)[nat 0 := ?row[k :=
               \<lparr>valid = 1, tag = 9, dirty = 0, timeStamp = time two_way_half + 1\<rparr>]]\<rparr>)
         else Inl SignedOverflow)"
    and store: "store_cache 9 0 two_way_half =
        (if time two_way_half < INT_MAX \<and> miss two_way_half < INT_MAX \<and>
            (dirty (?row ! k) = 0 \<longrightarrow> dirtyInCache two_way_half < INT_MAX) then
           Inr (two_way_half\<lparr>time := time two_way_half + 1, miss := miss two_way_half + 1,
             dirtyInCache := (if dirty (?row ! k) = 0 then dirtyInCache two_way_half + 1
                              else dirtyInCache two_way_half),
             cache := (cache two_way_half)[nat 0 := ?row[k :=
               \<lparr>valid = 1, tag = 9, dirty = 1, timeStamp = time two_way_half + 1\<rparr>]]\<rparr>)
         else Inl SignedOverflow)"
    by blast
  from k have k1: "k = 1"
    by (cases k) (auto simp: two_way_half_def)
  from load have "load_cache 9 0 two_way_half =
     Inr (two_way_half\<lparr>time := 2, miss := 2,
       cache := [[\<lparr>valid = 1, tag = 3, dirty = 1, timeStamp = 1\<rparr>,
         \<lparr>valid = 1, tag = 9, dirty = 0, timeStamp = 2\<rparr>]]\<rparr>)"
    unfolding k1 by (simp add: two_way_half_def INT_MAX_def)
  moreover from store have "store_cache 9 0 two_way_half =
     Inr (two_way_half\<lparr>time := 2, miss := 2, dirtyInCache := 2,
       cache := [[\<lparr>valid = 1, tag = 3, dirty = 1, timeStamp = 1\<rparr>,
         \<lparr>valid = 1, tag = 9, dirty = 1, timeStamp = 2\<rparr>]]\<rparr>)"
    unfolding k1 by (simp add: two_way_half_def INT_MAX_def)
  moreover have "find_matched_line ?row 9 = - 1" "find_empty_line ?row = 1"
    "valid (?row ! 1) = 0" "valid (?row ! 0) = 1"
    by (simp_all add: two_way_half_def find_matched_line_def find_empty_line_def)
  ultimately show ?thesis
    by blast
qed


end
